theory Spec2Isabelle
  imports Complex_Main
begin

section \<open>The dCGP expression: data model\<close>

text \<open>
  A shallow embedding of \<^verbatim>\<open>dcgp::expression<T>\<close> (include/dcgp/expression.hpp).
  The C++ type \<^verbatim>\<open>unsigned\<close> is modelled by \<open>nat\<close>: every subtraction of the class
  is guarded by the sanity checks of the constructor (\<open>n > 0\<close>, \<open>|F| > 0\<close>,
  \<open>i \<ge> l\<close>, \<open>l \<le> c\<close>), and the shapes considered are those whose chromosome
  size fits the machine word, so no operation wraps.

  The scalar domain \<open>T\<close> is the type parameter \<open>'a\<close>, a kernel is its numeric
  application \<open>'a list \<Rightarrow> 'a\<close>, and the default-constructed scalar \<^verbatim>\<open>T()\<close> is \<open>0\<close>.

  The random engine \<^verbatim>\<open>m_e\<close> is the sequence of its future raw outputs together with
  a cursor. \<^verbatim>\<open>std::uniform_int_distribution(a, b)(m_e)\<close> consumes one raw output and
  maps it into the closed range \<open>[a, b]\<close>; every value of the range is the image
  of some raw output, so every behaviour of a uniform integer source is covered.
\<close>

datatype error = InvalidArgument

text \<open>
  The result of calling a member function: it returns, it throws (the object
  survives the exception in the state it was left in), it never returns, or its
  behaviour is undefined (a read of an uninitialised variable).
\<close>

datatype 's outcome = Returns 's | Throws error 's | Diverges | Undefined

type_synonym engine = "(nat \<Rightarrow> nat) \<times> nat"

record 'a expression =
  m_n :: nat
  m_m :: nat
  m_r :: nat
  m_c :: nat
  m_l :: nat
  m_arity :: "nat list"
  m_f :: "('a list \<Rightarrow> 'a) list"
  m_lb :: "nat list"
  m_ub :: "nat list"
  m_active_nodes :: "nat list"
  m_active_genes :: "nat list"
  m_x :: "nat list"
  m_gene_idx :: "nat list"
  m_e :: engine

definition uniform_int_distribution :: "nat \<Rightarrow> nat \<Rightarrow> engine \<Rightarrow> nat \<times> engine" where
  "uniform_int_distribution a b g = (a + fst g (snd g) mod (b - a + 1), (fst g, Suc (snd g)))"

section \<open>Chromosome layout and bounds\<close>

text \<open>\<^verbatim>\<open>sanity_checks\<close>: the first violated check throws.\<close>

definition sanity_checks :: "'a expression \<Rightarrow> error option" where
  "sanity_checks e =
     (if m_n e = 0 then Some InvalidArgument
      else if m_m e = 0 then Some InvalidArgument
      else if m_c e = 0 then Some InvalidArgument
      else if m_r e = 0 then Some InvalidArgument
      else if m_l e = 0 then Some InvalidArgument
      else if length (m_arity e) \<noteq> m_c e then Some InvalidArgument
      else if list_ex (\<lambda>a. a = 0) (m_arity e) then Some InvalidArgument
      else if length (m_f e) = 0 then Some InvalidArgument
      else None)"

text \<open>
  \<^verbatim>\<open>init_bounds_and_chromosome\<close>. The source allocates \<open>lb\<close>, \<open>ub\<close> and \<open>x\<close>
  filled with zeros and writes the bounds through a cursor \<open>k\<close> that advances by
  one per gene, column first, then rows: one function gene and \<open>arity[i]\<close>
  connection genes per node. The genes of one node are the list \<open>node_lb\<close> /
  \<open>node_ub\<close>; a lower bound the source does not write keeps its initial 0. The
  last \<open>m\<close> positions are the output genes.
\<close>

definition chromosome_size :: "'a expression \<Rightarrow> nat" where
  "chromosome_size e = m_r e * m_c e + m_r e * sum_list (m_arity e) + m_m e"

definition node_ub :: "'a expression \<Rightarrow> nat \<Rightarrow> nat list" where
  "node_ub e i = (length (m_f e) - 1) # replicate (m_arity e ! i) (m_n e + i * m_r e - 1)"

definition node_lb :: "'a expression \<Rightarrow> nat \<Rightarrow> nat list" where
  "node_lb e i = 0 # replicate (m_arity e ! i) (if i \<ge> m_l e then m_n e + m_r e * (i - m_l e) else 0)"

definition init_ub :: "'a expression \<Rightarrow> nat list" where
  "init_ub e = concat (map (\<lambda>i. concat (replicate (m_r e) (node_ub e i))) [0..<m_c e])
               @ replicate (m_m e) (m_n e + m_r e * m_c e - 1)"

definition init_lb :: "'a expression \<Rightarrow> nat list" where
  "init_lb e = concat (map (\<lambda>i. concat (replicate (m_r e) (node_lb e i))) [0..<m_c e])
               @ replicate (m_m e) (if m_l e \<le> m_c e then m_n e + m_r e * (m_c e - m_l e) else 0)"

definition init_gene_idx :: "'a expression \<Rightarrow> nat list" where
  "init_gene_idx e =
     map (\<lambda>node_id.
            if node_id < m_n e then 0
            else (let col = (node_id - m_n e) div m_r e;
                      row = (node_id - m_n e) mod m_r e;
                      acc = sum_list (map (\<lambda>j. m_arity e ! j) [0..<col]) * m_r e
                  in acc + row * (m_arity e ! col) + (node_id - m_n e)))
         [0..<m_r e * m_c e + m_n e]"

definition init_bounds_and_chromosome :: "'a expression \<Rightarrow> 'a expression" where
  "init_bounds_and_chromosome e =
     e\<lparr>m_x := replicate (chromosome_size e) 0,
       m_lb := init_lb e,
       m_ub := init_ub e,
       m_gene_idx := init_gene_idx e\<rparr>"

text \<open>\<^verbatim>\<open>is_valid\<close>: the length, then the bounds of every gene.\<close>

definition is_valid :: "'a expression \<Rightarrow> nat list \<Rightarrow> bool" where
  "is_valid e x =
     (if length x \<noteq> length (m_lb e) then False
      else list_all (\<lambda>i. \<not> (x ! i > m_ub e ! i \<or> x ! i < m_lb e ! i)) [0..<length x])"

section \<open>The active-set engine\<close>

text \<open>\<^verbatim>\<open>_get_arity\<close>, the unchecked arity of a node.\<close>

definition get_arity_unchecked :: "'a expression \<Rightarrow> nat \<Rightarrow> nat" where
  "get_arity_unchecked e node_id = m_arity e ! ((node_id - m_n e) div m_r e)"

text \<open>The node ids read from the connection genes of a function node.\<close>

definition node_connections :: "'a expression \<Rightarrow> nat \<Rightarrow> nat list" where
  "node_connections e node_id =
     map (\<lambda>i. m_x e ! (m_gene_idx e ! node_id + i)) [1..<get_arity_unchecked e node_id + 1]"

text \<open>
  One pass of the body of the do-while loop of \<^verbatim>\<open>update_data_structures\<close>:
  \<open>wave_nodes\<close> is what the pass appends to \<^verbatim>\<open>m_active_nodes\<close> (all of
  \<open>current\<close>, then its input nodes once more), \<open>wave_next\<close> is \<open>next\<close> after
  \<^verbatim>\<open>std::sort\<close> and \<^verbatim>\<open>std::unique\<close>.
\<close>

definition wave_nodes :: "'a expression \<Rightarrow> nat list \<Rightarrow> nat list" where
  "wave_nodes e current = current @ filter (\<lambda>node_id. \<not> node_id \<ge> m_n e) current"

definition wave_next :: "'a expression \<Rightarrow> nat list \<Rightarrow> nat list" where
  "wave_next e current =
     remdups_adj (sort (concat (map (node_connections e) (filter (\<lambda>node_id. node_id \<ge> m_n e) current))))"

text \<open>The do-while loop; \<open>None\<close> is the loop that never ends.\<close>

partial_function (option) back_wave :: "'a expression \<Rightarrow> nat list \<Rightarrow> nat list \<Rightarrow> nat list option" where
  "back_wave e current active =
     (if length (wave_next e current) > 0
      then back_wave e (wave_next e current) (active @ wave_nodes e current)
      else Some (active @ wave_nodes e current))"

definition output_genes :: "'a expression \<Rightarrow> nat list" where
  "output_genes e = map (\<lambda>i. length (m_x e) - m_m e + i) [0..<m_m e]"

definition node_genes :: "'a expression \<Rightarrow> nat \<Rightarrow> nat list" where
  "node_genes e node_id = map (\<lambda>j. m_gene_idx e ! node_id + j) [0..<get_arity_unchecked e node_id + 1]"

definition active_genes_of :: "'a expression \<Rightarrow> nat list \<Rightarrow> nat list" where
  "active_genes_of e nodes =
     concat (map (node_genes e) (filter (\<lambda>node_id. node_id \<ge> m_n e) nodes)) @ output_genes e"

definition update_data_structures :: "'a expression \<Rightarrow> 'a expression option" where
  "update_data_structures e =
     (case back_wave e (map (\<lambda>i. m_x e ! i) (output_genes e)) [] of
        None \<Rightarrow> None
      | Some active \<Rightarrow>
          Some (e\<lparr>m_active_nodes := remdups_adj (sort active),
                  m_active_genes := active_genes_of e (remdups_adj (sort active))\<rparr>))"

definition refresh :: "'a expression \<Rightarrow> 'a expression outcome" where
  "refresh e = (case update_data_structures e of None \<Rightarrow> Diverges | Some e' \<Rightarrow> Returns e')"

section \<open>Construction, set and get\<close>

text \<open>The random initial chromosome: one draw per gene, in index order.\<close>

definition random_gene :: "'a expression \<Rightarrow> nat \<Rightarrow> 'a expression" where
  "random_gene e i =
     (case uniform_int_distribution (m_lb e ! i) (m_ub e ! i) (m_e e) of
        (v, g) \<Rightarrow> e\<lparr>m_x := (m_x e)[i := v], m_e := g\<rparr>)"

definition random_chromosome :: "'a expression \<Rightarrow> 'a expression" where
  "random_chromosome e = foldl random_gene e [0..<length (m_x e)]"

text \<open>
  The constructor (per-column arity). The seed of the source determines the engine;
  the model takes the engine itself. \<open>None\<close>: the constructor does not return.
\<close>

definition expression_ctor ::
  "nat \<Rightarrow> nat \<Rightarrow> nat \<Rightarrow> nat \<Rightarrow> nat \<Rightarrow> nat list \<Rightarrow> ('a list \<Rightarrow> 'a) list \<Rightarrow> (nat \<Rightarrow> nat)
   \<Rightarrow> (error + 'a expression) option" where
  "expression_ctor n m r c l arity f seed =
     (let e0 = \<lparr>m_n = n, m_m = m, m_r = r, m_c = c, m_l = l, m_arity = arity, m_f = f,
                m_lb = [], m_ub = [], m_active_nodes = [], m_active_genes = [], m_x = [],
                m_gene_idx = [], m_e = (seed, 0)\<rparr>
      in case sanity_checks e0 of
           Some err \<Rightarrow> Some (Inl err)
         | None \<Rightarrow>
             (case update_data_structures (random_chromosome (init_bounds_and_chromosome e0)) of
                None \<Rightarrow> None
              | Some e \<Rightarrow> Some (Inr e)))"

text \<open>The constructor with uniform arity.\<close>

definition expression_ctor_uniform ::
  "nat \<Rightarrow> nat \<Rightarrow> nat \<Rightarrow> nat \<Rightarrow> nat \<Rightarrow> nat \<Rightarrow> ('a list \<Rightarrow> 'a) list \<Rightarrow> (nat \<Rightarrow> nat)
   \<Rightarrow> (error + 'a expression) option" where
  "expression_ctor_uniform n m r c l arity f seed =
     expression_ctor n m r c l (replicate c arity) f seed"

definition set_chromosome :: "nat list \<Rightarrow> 'a expression \<Rightarrow> 'a expression outcome" where
  "set_chromosome x e =
     (if \<not> is_valid e x then Throws InvalidArgument e
      else refresh (e\<lparr>m_x := x\<rparr>))"

definition set_f_gene :: "nat \<Rightarrow> nat \<Rightarrow> 'a expression \<Rightarrow> 'a expression outcome" where
  "set_f_gene node_id f_id e =
     (if f_id > length (m_f e) - 1 then Throws InvalidArgument e
      else if node_id < m_n e \<or> node_id > m_n e + m_c e * m_r e - 1 then Throws InvalidArgument e
      else Returns (e\<lparr>m_x := (m_x e)[m_gene_idx e ! node_id := f_id]\<rparr>))"

definition get :: "'a expression \<Rightarrow> nat list" where
  "get e = m_x e"

section \<open>The evaluator\<close>

text \<open>One iteration of the loop of \<^verbatim>\<open>operator()\<close> over the active nodes.\<close>

definition eval_node :: "'a expression \<Rightarrow> 'a list \<Rightarrow> 'a list \<Rightarrow> nat \<Rightarrow> 'a list" where
  "eval_node e point node node_id =
     (if node_id < m_n e then node[node_id := point ! node_id]
      else (let arity = get_arity_unchecked e node_id;
                idx = m_gene_idx e ! node_id;
                function_in = map (\<lambda>j. node ! (m_x e ! (idx + j + 1))) [0..<arity]
            in node[node_id := (m_f e ! (m_x e ! idx)) function_in]))"

definition call :: "'a::zero expression \<Rightarrow> 'a list \<Rightarrow> error + 'a list" where
  "call e point =
     (if length point \<noteq> m_n e then Inl InvalidArgument
      else (let node = foldl (eval_node e point) (replicate (m_n e + m_r e * m_c e) 0) (m_active_nodes e)
            in Inr (map (\<lambda>i. node ! (m_x e ! (length (m_x e) - m_m e + i))) [0..<m_m e])))"

section \<open>Mutation operators\<close>

text \<open>
  The rejection loop \<^verbatim>\<open>do { new_value = U(lb, ub)(m_e); } while (new_value == old)\<close>;
  \<open>None\<close> when every further draw repeats the old value.
\<close>

partial_function (option) draw_new_value :: "nat \<Rightarrow> nat \<Rightarrow> nat \<Rightarrow> engine \<Rightarrow> (nat \<times> engine) option" where
  "draw_new_value lo hi old g =
     (case uniform_int_distribution lo hi g of
        (new_value, g') \<Rightarrow> if new_value = old then draw_new_value lo hi old g' else Some (new_value, g'))"

text \<open>
  The mutation of one gene as the three loops of \<^verbatim>\<open>mutate(unsigned)\<close>,
  \<^verbatim>\<open>mutate(std::vector<unsigned>)\<close> and \<^verbatim>\<open>mutate_random\<close> write it: a gene with
  \<open>lb = ub\<close> is left alone, otherwise a new value is drawn and stored. The result
  tells whether the gene was written.
\<close>

definition mutate_gene :: "nat \<Rightarrow> 'a expression \<Rightarrow> (bool \<times> 'a expression) option" where
  "mutate_gene idx e =
     (if m_lb e ! idx < m_ub e ! idx
      then (case draw_new_value (m_lb e ! idx) (m_ub e ! idx) (m_x e ! idx) (m_e e) of
              None \<Rightarrow> None
            | Some (new_value, g) \<Rightarrow> Some (True, e\<lparr>m_x := (m_x e)[idx := new_value], m_e := g\<rparr>))
      else Some (False, e))"

text \<open>\<^verbatim>\<open>mutate(unsigned idx)\<close>\<close>

definition mutate :: "nat \<Rightarrow> 'a expression \<Rightarrow> 'a expression outcome" where
  "mutate idx e =
     (if idx \<ge> length (m_x e) then Throws InvalidArgument e
      else (case mutate_gene idx e of
              None \<Rightarrow> Diverges
            | Some (written, e') \<Rightarrow> if written then refresh e' else Returns e'))"

text \<open>
  \<^verbatim>\<open>mutate(std::vector<unsigned> idxs)\<close>: the loop of the source checks each index
  when it reaches it; \<open>flag\<close> records whether a gene was written so far.
\<close>

fun mutate_idxs :: "nat list \<Rightarrow> bool \<Rightarrow> 'a expression \<Rightarrow> 'a expression outcome" where
  "mutate_idxs [] flag e = (if flag then refresh e else Returns e)"
| "mutate_idxs (idx # idxs) flag e =
     (if idx \<ge> length (m_x e) then Throws InvalidArgument e
      else (case mutate_gene idx e of
              None \<Rightarrow> Diverges
            | Some (written, e') \<Rightarrow> mutate_idxs idxs (written \<or> flag) e'))"

definition mutate_list :: "nat list \<Rightarrow> 'a expression \<Rightarrow> 'a expression outcome" where
  "mutate_list idxs e = mutate_idxs idxs False e"

text \<open>\<^verbatim>\<open>mutate_random(unsigned N)\<close>\<close>

fun mutate_random_loop :: "nat \<Rightarrow> bool \<Rightarrow> 'a expression \<Rightarrow> 'a expression outcome" where
  "mutate_random_loop 0 flag e = (if flag then refresh e else Returns e)"
| "mutate_random_loop (Suc k) flag e =
     (case uniform_int_distribution 0 (length (m_lb e) - 1) (m_e e) of
        (idx, g) \<Rightarrow>
          (case mutate_gene idx (e\<lparr>m_e := g\<rparr>) of
             None \<Rightarrow> Diverges
           | Some (written, e') \<Rightarrow> mutate_random_loop k (written \<or> flag) e'))"

definition mutate_random :: "nat \<Rightarrow> 'a expression \<Rightarrow> 'a expression outcome" where
  "mutate_random N e = mutate_random_loop N False e"

text \<open>\<^verbatim>\<open>mutate_active(unsigned N)\<close>: each round calls \<^verbatim>\<open>mutate\<close>, whose exception would propagate.\<close>

fun mutate_active :: "nat \<Rightarrow> 'a expression \<Rightarrow> 'a expression outcome" where
  "mutate_active 0 e = Returns e"
| "mutate_active (Suc k) e =
     (case uniform_int_distribution 0 (length (m_active_genes e) - 1) (m_e e) of
        (idx, g) \<Rightarrow>
          (case mutate (m_active_genes e ! idx) (e\<lparr>m_e := g\<rparr>) of
             Returns e' \<Rightarrow> mutate_active k e'
           | other \<Rightarrow> other))"

text \<open>
  The loop \<^verbatim>\<open>while (node_id < m_n) node_id = m_active_nodes[U(0, size - 1)(m_e)]\<close>
  of \<^verbatim>\<open>mutate_active_fgene\<close> and \<^verbatim>\<open>mutate_active_cgene\<close>, entered with \<open>node_id = 0\<close>.
\<close>

partial_function (option) random_active_node :: "'a expression \<Rightarrow> nat \<Rightarrow> engine \<Rightarrow> (nat \<times> engine) option" where
  "random_active_node e node_id g =
     (if node_id < m_n e
      then (case uniform_int_distribution 0 (length (m_active_nodes e) - 1) g of
              (i, g') \<Rightarrow> random_active_node e (m_active_nodes e ! i) g')
      else Some (node_id, g))"

fun mutate_active_fgene_loop :: "nat \<Rightarrow> 'a expression \<Rightarrow> 'a expression outcome" where
  "mutate_active_fgene_loop 0 e = Returns e"
| "mutate_active_fgene_loop (Suc k) e =
     (case random_active_node e 0 (m_e e) of
        None \<Rightarrow> Diverges
      | Some (node_id, g) \<Rightarrow>
          (case mutate (m_gene_idx e ! node_id) (e\<lparr>m_e := g\<rparr>) of
             Returns e' \<Rightarrow> mutate_active_fgene_loop k e'
           | other \<Rightarrow> other))"

definition mutate_active_fgene :: "nat \<Rightarrow> 'a expression \<Rightarrow> 'a expression outcome" where
  "mutate_active_fgene N e =
     (if length (m_active_genes e) > m_m e then mutate_active_fgene_loop N e else Returns e)"

fun mutate_active_cgene_loop :: "nat \<Rightarrow> 'a expression \<Rightarrow> 'a expression outcome" where
  "mutate_active_cgene_loop 0 e = Returns e"
| "mutate_active_cgene_loop (Suc k) e =
     (case random_active_node e 0 (m_e e) of
        None \<Rightarrow> Diverges
      | Some (node_id, g) \<Rightarrow>
          (case uniform_int_distribution 1 (get_arity_unchecked e node_id) g of
             (j, g') \<Rightarrow>
               (case mutate (m_gene_idx e ! node_id + j) (e\<lparr>m_e := g'\<rparr>) of
                  Returns e' \<Rightarrow> mutate_active_cgene_loop k e'
                | other \<Rightarrow> other)))"

definition mutate_active_cgene :: "nat \<Rightarrow> 'a expression \<Rightarrow> 'a expression outcome" where
  "mutate_active_cgene N e =
     (if length (m_active_genes e) > m_m e then mutate_active_cgene_loop N e else Returns e)"

text \<open>
  \<^verbatim>\<open>mutate_ogene(unsigned N)\<close>. With \<open>m > 1\<close> the loop assigns the local \<open>idx\<close>
  once per round and nothing else happens in the loop; \<open>idx\<close> starts uninitialised
  (\<open>None\<close>), and reading it after zero rounds is undefined behaviour.
\<close>

fun ogene_draws :: "nat \<Rightarrow> nat \<Rightarrow> nat \<Rightarrow> nat option \<Rightarrow> engine \<Rightarrow> nat option \<times> engine" where
  "ogene_draws 0 lo hi idx g = (idx, g)"
| "ogene_draws (Suc k) lo hi idx g =
     (case uniform_int_distribution lo hi g of (i, g') \<Rightarrow> ogene_draws k lo hi (Some i) g')"

definition mutate_ogene :: "nat \<Rightarrow> 'a expression \<Rightarrow> 'a expression outcome" where
  "mutate_ogene N e =
     (if m_m e > 1
      then (case ogene_draws N (length (m_active_genes e) - m_m e) (length (m_active_genes e) - 1)
                   None (m_e e) of
              (None, g) \<Rightarrow> Undefined
            | (Some idx, g) \<Rightarrow> mutate (m_active_genes e ! idx) (e\<lparr>m_e := g\<rparr>))
      else mutate (m_active_genes e ! (length (m_active_genes e) - 1)) e)"

text \<open>\<^verbatim>\<open>seed(long)\<close> re-seeds the engine.\<close>

definition seed :: "(nat \<Rightarrow> nat) \<Rightarrow> 'a expression \<Rightarrow> 'a expression outcome" where
  "seed s e = Returns (e\<lparr>m_e := (s, 0)\<rparr>)"

section \<open>Reachable states\<close>

text \<open>
  The calls that change an expression, and the states a client can observe: the
  state a constructor returns, and the state any call leaves behind, whether it
  returns or throws (the exception can be caught and the object used again).
\<close>

datatype member_call =
    Set "nat list"
  | Set_f_gene nat nat
  | Mutate nat
  | Mutate_list "nat list"
  | Mutate_random nat
  | Mutate_active nat
  | Mutate_active_fgene nat
  | Mutate_active_cgene nat
  | Mutate_ogene nat
  | Seed "nat \<Rightarrow> nat"

fun exec :: "member_call \<Rightarrow> 'a expression \<Rightarrow> 'a expression outcome" where
  "exec (Set x) e = set_chromosome x e"
| "exec (Set_f_gene node_id f_id) e = set_f_gene node_id f_id e"
| "exec (Mutate idx) e = mutate idx e"
| "exec (Mutate_list idxs) e = mutate_list idxs e"
| "exec (Mutate_random N) e = mutate_random N e"
| "exec (Mutate_active N) e = mutate_active N e"
| "exec (Mutate_active_fgene N) e = mutate_active_fgene N e"
| "exec (Mutate_active_cgene N) e = mutate_active_cgene N e"
| "exec (Mutate_ogene N) e = mutate_ogene N e"
| "exec (Seed s) e = seed s e"

inductive reachable :: "'a expression \<Rightarrow> bool" where
  constructed: "expression_ctor n m r c l arity f s = Some (Inr e) \<Longrightarrow> reachable e"
| returned: "reachable e \<Longrightarrow> exec mc e = Returns e' \<Longrightarrow> reachable e'"
| thrown: "reachable e \<Longrightarrow> exec mc e = Throws err e' \<Longrightarrow> reachable e'"

text \<open>The states reached when every call so far has returned.\<close>

inductive reachable_by_returns :: "'a expression \<Rightarrow> bool" where
  constructed: "expression_ctor n m r c l arity f s = Some (Inr e) \<Longrightarrow> reachable_by_returns e"
| returned: "reachable_by_returns e \<Longrightarrow> exec mc e = Returns e' \<Longrightarrow> reachable_by_returns e'"

section \<open>Notions used by the properties\<close>

text \<open>
  The position of the function gene of the node in column \<open>col\<close> and row \<open>row\<close>:
  the genes of the earlier columns come first, then those of the earlier rows.
\<close>

definition column_start :: "'a expression \<Rightarrow> nat \<Rightarrow> nat" where
  "column_start e col = sum_list (map (\<lambda>j. m_r e * (1 + m_arity e ! j)) [0..<col])"

definition gene_pos :: "'a expression \<Rightarrow> nat \<Rightarrow> nat \<Rightarrow> nat" where
  "gene_pos e col row = column_start e col + row * (1 + m_arity e ! col)"

text \<open>
  The shape of an expression that a constructor built: the parameters passed the
  sanity checks, the bounds and the gene index table are the ones
  \<^verbatim>\<open>init_bounds_and_chromosome\<close> computed, and the chromosome has its length.
\<close>

definition shape_ok :: "'a expression \<Rightarrow> bool" where
  "shape_ok e \<longleftrightarrow>
     sanity_checks e = None \<and> m_lb e = init_lb e \<and> m_ub e = init_ub e \<and>
     m_gene_idx e = init_gene_idx e \<and> length (m_x e) = chromosome_size e"

text \<open>What holds in every state a client can observe.\<close>

definition expression_inv :: "'a expression \<Rightarrow> bool" where
  "expression_inv e \<longleftrightarrow>
     shape_ok e \<and> is_valid e (m_x e) \<and>
     m_active_genes e = active_genes_of e (m_active_nodes e) \<and>
     sorted (m_active_nodes e) \<and> distinct (m_active_nodes e)"

text \<open>The derived data agree with the chromosome: recomputing them changes nothing.\<close>

definition consistent :: "'a expression \<Rightarrow> bool" where
  "consistent e \<longleftrightarrow> update_data_structures e = Some e"

text \<open>
  The node ids that feed an output: the nodes the output genes select, and the
  nodes a connection gene of such a function node selects.
\<close>

inductive feeds_output :: "'a expression \<Rightarrow> nat \<Rightarrow> bool" for e :: "'a expression" where
  selected: "i < m_m e \<Longrightarrow> feeds_output e (m_x e ! (length (m_x e) - m_m e + i))"
| connected: "feeds_output e node_id \<Longrightarrow> node_id \<ge> m_n e \<Longrightarrow> 1 \<le> i \<Longrightarrow>
     i \<le> get_arity_unchecked e node_id \<Longrightarrow> feeds_output e (m_x e ! (m_gene_idx e ! node_id + i))"

text \<open>
  The column rank of a node: 0 for an input node, one more than its column for a
  function node; and the largest rank of a wave.
\<close>

definition column_rank :: "'a expression \<Rightarrow> nat \<Rightarrow> nat" where
  "column_rank e node_id = (if node_id < m_n e then 0 else (node_id - m_n e) div m_r e + 1)"

definition max_column_rank :: "'a expression \<Rightarrow> nat list \<Rightarrow> nat" where
  "max_column_rank e nodes = foldr max (map (column_rank e) nodes) 0"

text \<open>What a client observes of the state: \<^verbatim>\<open>get()\<close>, \<^verbatim>\<open>get_active_nodes()\<close>, \<^verbatim>\<open>get_active_genes()\<close>.\<close>

definition observe :: "'a expression \<Rightarrow> nat list \<times> nat list \<times> nat list" where
  "observe e = (m_x e, m_active_nodes e, m_active_genes e)"

text \<open>The state a call leaves behind, when it returns or throws.\<close>

fun left_behind :: "'s outcome \<Rightarrow> 's option" where
  "left_behind (Returns s) = Some s"
| "left_behind (Throws err s) = Some s"
| "left_behind Diverges = None"
| "left_behind Undefined = None"

text \<open>The raw outputs that \<^verbatim>\<open>draw_new_value\<close> would map to something else than \<open>old\<close>.\<close>

definition draws_other :: "nat \<Rightarrow> nat \<Rightarrow> nat \<Rightarrow> engine \<Rightarrow> nat \<Rightarrow> bool" where
  "draws_other lo hi old g i \<longleftrightarrow> lo + fst g (snd g + i) mod (hi - lo + 1) \<noteq> old"

subsection \<open>A concrete expression\<close>

text \<open>
  The kernel \<^verbatim>\<open>my_sum\<close> of wrapped_functions.hpp, over the reals, and an engine
  whose raw outputs are 0, 1, 2, ...
\<close>

definition my_sum :: "real list \<Rightarrow> real" where
  "my_sum inp = foldl (+) (inp ! 0) (tl inp)"

definition counting_engine :: "nat \<Rightarrow> nat" where
  "counting_engine i = i"

text \<open>
  The expression \<^verbatim>\<open>expression<double>(2, 1, 1, 1, 1, {2}, {sum}, seed)\<close>: two inputs,
  one output, a single node of arity 2, one level back.
\<close>

definition small_expression :: "real expression" where
  "small_expression =
     (case expression_ctor 2 1 1 1 1 [2] [my_sum] counting_engine of Some (Inr e) \<Rightarrow> e)"

text \<open>
  The expression \<^verbatim>\<open>expression<double>(2, 2, 1, 1, 2, {2}, {sum}, seed)\<close>: the same grid
  with two outputs and two levels back, so that the output genes range over \<open>[0, 2]\<close>.
\<close>

definition two_output_expression :: "real expression" where
  "two_output_expression =
     (case expression_ctor 2 2 1 1 2 [2] [my_sum] counting_engine of Some (Inr e) \<Rightarrow> e)"



declare back_wave.simps [code]
declare draw_new_value.simps [code]
declare random_active_node.simps [code]

section \<open>The layout of the chromosome\<close>


lemma nth_concat_block:
  "i < length xss \<Longrightarrow> k < length (xss ! i) \<Longrightarrow>
   concat xss ! (sum_list (map length (take i xss)) + k) = xss ! i ! k"
proof (induction xss arbitrary: i)
  case Nil
  then show ?case by simp
next
  case (Cons xs xss)
  show ?case
  proof (cases i)
    case 0
    with Cons.prems show ?thesis by (simp add: nth_append)
  next
    case (Suc j)
    with Cons.prems have "concat xss ! (sum_list (map length (take j xss)) + k) = xss ! j ! k"
      by (intro Cons.IH) simp_all
    with Suc show ?thesis by (simp add: nth_append add.assoc)
  qed
qed

lemma nth_concat_replicate:
  "row < r \<Longrightarrow> k < length blk \<Longrightarrow> concat (replicate r blk) ! (row * length blk + k) = blk ! k"
  using nth_concat_block [of row "replicate r blk" k]
  by (simp add: sum_list_replicate)

lemma column_start_Suc: "column_start e (Suc col) = column_start e col + m_r e * (1 + m_arity e ! col)"
  by (simp add: column_start_def)

lemma column_start_eq: "column_start e col = m_r e * col + sum_list (map (\<lambda>j. m_arity e ! j) [0..<col]) * m_r e"
  by (induction col) (simp_all add: column_start_def algebra_simps)

lemma column_start_mono: "col \<le> col' \<Longrightarrow> column_start e col \<le> column_start e col'"
  by (induction col' ) (auto simp: column_start_Suc le_Suc_eq)

lemma sum_list_arity: "length (m_arity e) = m_c e \<Longrightarrow> sum_list (map (\<lambda>j. m_arity e ! j) [0..<m_c e]) = sum_list (m_arity e)"
  by (metis map_nth)

lemma column_start_c: "length (m_arity e) = m_c e \<Longrightarrow> column_start e (m_c e) + m_m e = chromosome_size e"
  by (simp add: column_start_eq sum_list_arity chromosome_size_def algebra_simps)

lemma gene_pos_less_Suc:
  "row < m_r e \<Longrightarrow> k \<le> m_arity e ! col \<Longrightarrow> gene_pos e col row + k < column_start e (Suc col)"
proof -
  assume row: "row < m_r e" and k: "k \<le> m_arity e ! col"
  let ?a = "1 + m_arity e ! col"
  from row have "Suc row * ?a \<le> m_r e * ?a"
    by (intro mult_le_mono1) simp
  moreover from k have "row * ?a + k < Suc row * ?a" by simp
  ultimately show ?thesis
    by (simp add: gene_pos_def column_start_Suc)
qed

lemma gene_pos_less:
  assumes "col < m_c e" "row < m_r e" "k \<le> m_arity e ! col"
  shows "gene_pos e col row + k < column_start e (m_c e)"
proof -
  have "gene_pos e col row + k < column_start e (Suc col)"
    using assms by (intro gene_pos_less_Suc)
  also have "\<dots> \<le> column_start e (m_c e)"
    using assms(1) by (intro column_start_mono) simp
  finally show ?thesis .
qed

lemma length_gene_blocks:
  assumes "\<And>i. i < c \<Longrightarrow> length (B i) = 1 + m_arity e ! i"
  shows "length (concat (map (\<lambda>i. concat (replicate (m_r e) (B i))) [0..<c])) = column_start e c"
  using assms
proof (induction c)
  case 0
  then show ?case by (simp add: column_start_def)
next
  case (Suc c)
  then show ?case by (simp add: column_start_Suc length_concat sum_list_replicate)
qed

lemma nth_gene_blocks:
  assumes len: "\<And>i. i < c \<Longrightarrow> length (B i) = 1 + m_arity e ! i"
    and col: "col < c" and row: "row < m_r e" and k: "k \<le> m_arity e ! col"
  shows "concat (map (\<lambda>i. concat (replicate (m_r e) (B i))) [0..<c]) ! (gene_pos e col row + k) = B col ! k"
proof -
  let ?blk = "\<lambda>i. concat (replicate (m_r e) (B i))"
  let ?xss = "map ?blk [0..<c]"
  have take: "take col ?xss = map ?blk [0..<col]"
    using col by (simp add: take_map)
  have "sum_list (map length (take col ?xss)) = length (concat (map ?blk [0..<col]))"
    unfolding take by (simp add: length_concat)
  also have "\<dots> = column_start e col"
    using len col by (intro length_gene_blocks) simp
  finally have start: "sum_list (map length (take col ?xss)) = column_start e col" .
  have lenB: "length (B col) = 1 + m_arity e ! col"
    using len col by simp
  have inblk: "row * (1 + m_arity e ! col) + k < length (?xss ! col)"
  proof -
    have "gene_pos e col row + k < column_start e (Suc col)"
      using row k by (intro gene_pos_less_Suc)
    then show ?thesis
      using col lenB by (simp add: gene_pos_def column_start_Suc length_concat sum_list_replicate)
  qed
  have "concat ?xss ! (sum_list (map length (take col ?xss)) + (row * (1 + m_arity e ! col) + k))
        = ?xss ! col ! (row * (1 + m_arity e ! col) + k)"
    using col inblk by (intro nth_concat_block) simp_all
  also have "\<dots> = concat (replicate (m_r e) (B col)) ! (row * length (B col) + k)"
    using col lenB by simp
  also have "\<dots> = B col ! k"
    using row k lenB by (intro nth_concat_replicate) simp_all
  finally show ?thesis
    by (simp add: start gene_pos_def add.assoc)
qed

lemma length_node_ub: "length (node_ub e i) = 1 + m_arity e ! i"
  by (simp add: node_ub_def)

lemma length_node_lb: "length (node_lb e i) = 1 + m_arity e ! i"
  by (simp add: node_lb_def)

lemma length_init_ub: "length (m_arity e) = m_c e \<Longrightarrow> length (init_ub e) = chromosome_size e"
  unfolding init_ub_def
  by (simp add: length_gene_blocks [of "m_c e" "node_ub e" e] length_node_ub column_start_c)

lemma length_init_lb: "length (m_arity e) = m_c e \<Longrightarrow> length (init_lb e) = chromosome_size e"
  unfolding init_lb_def
  by (simp add: length_gene_blocks [of "m_c e" "node_lb e" e] length_node_lb column_start_c)

lemma init_ub_gene:
  assumes "col < m_c e" "row < m_r e" "k \<le> m_arity e ! col"
  shows "init_ub e ! (gene_pos e col row + k) = node_ub e col ! k"
proof -
  have "gene_pos e col row + k < column_start e (m_c e)"
    using assms by (rule gene_pos_less)
  then show ?thesis
    unfolding init_ub_def
    using assms length_gene_blocks [of "m_c e" "node_ub e" e] nth_gene_blocks [of "m_c e" "node_ub e" e col row k]
    by (simp add: nth_append length_node_ub)
qed

lemma init_lb_gene:
  assumes "col < m_c e" "row < m_r e" "k \<le> m_arity e ! col"
  shows "init_lb e ! (gene_pos e col row + k) = node_lb e col ! k"
proof -
  have "gene_pos e col row + k < column_start e (m_c e)"
    using assms by (rule gene_pos_less)
  then show ?thesis
    unfolding init_lb_def
    using assms length_gene_blocks [of "m_c e" "node_lb e" e] nth_gene_blocks [of "m_c e" "node_lb e" e col row k]
    by (simp add: nth_append length_node_lb)
qed

lemma init_ub_output:
  assumes "i < m_m e"
  shows "init_ub e ! (column_start e (m_c e) + i) = m_n e + m_r e * m_c e - 1"
  unfolding init_ub_def
  using assms length_gene_blocks [of "m_c e" "node_ub e" e]
  by (simp add: nth_append length_node_ub)

lemma init_lb_output:
  assumes "i < m_m e"
  shows "init_lb e ! (column_start e (m_c e) + i) = (if m_l e \<le> m_c e then m_n e + m_r e * (m_c e - m_l e) else 0)"
  unfolding init_lb_def
  using assms length_gene_blocks [of "m_c e" "node_lb e" e]
  by (simp add: nth_append length_node_lb)

lemma init_gene_idx_node:
  assumes "m_n e \<le> node_id" "node_id < m_n e + m_r e * m_c e"
  shows "init_gene_idx e ! node_id = gene_pos e ((node_id - m_n e) div m_r e) ((node_id - m_n e) mod m_r e)"
proof -
  let ?col = "(node_id - m_n e) div m_r e" and ?row = "(node_id - m_n e) mod m_r e"
  have "node_id - m_n e = ?col * m_r e + ?row" by simp
  then have "column_start e ?col + ?row * (1 + m_arity e ! ?col)
     = sum_list (map (\<lambda>j. m_arity e ! j) [0..<?col]) * m_r e + ?row * (m_arity e ! ?col) + (node_id - m_n e)"
    by (simp add: column_start_eq algebra_simps)
  moreover have "node_id < m_r e * m_c e + m_n e" using assms by simp
  ultimately show ?thesis
    using assms(1) unfolding init_gene_idx_def gene_pos_def
    by (simp add: Let_def del: upt_Suc)
qed


section \<open>Consequences of a well-formed shape\<close>

lemma sanity_checks_None:
  "sanity_checks e = None \<longleftrightarrow>
     0 < m_n e \<and> 0 < m_m e \<and> 0 < m_c e \<and> 0 < m_r e \<and> 0 < m_l e \<and>
     length (m_arity e) = m_c e \<and> (\<forall>a\<in>set (m_arity e). a \<noteq> 0) \<and> 0 < length (m_f e)"
  by (auto simp: sanity_checks_def list_ex_iff) (metis gr0I)

lemma shape_ok_sanity:
  assumes "shape_ok e"
  shows "0 < m_n e" "0 < m_m e" "0 < m_c e" "0 < m_r e" "0 < m_l e"
    "length (m_arity e) = m_c e" "\<And>j. j < m_c e \<Longrightarrow> 0 < m_arity e ! j" "0 < length (m_f e)"
  using assms by (auto simp: shape_ok_def sanity_checks_None)

lemma shape_ok_tables:
  assumes "shape_ok e"
  shows "m_lb e = init_lb e" "m_ub e = init_ub e" "m_gene_idx e = init_gene_idx e"
  using assms by (simp_all add: shape_ok_def)

lemma shape_ok_lengths:
  assumes "shape_ok e"
  shows "length (m_lb e) = chromosome_size e" "length (m_ub e) = chromosome_size e"
    "length (m_x e) = chromosome_size e" "length (m_gene_idx e) = m_r e * m_c e + m_n e"
    "column_start e (m_c e) + m_m e = chromosome_size e"
  using assms
  by (auto simp: shape_ok_def sanity_checks_None length_init_lb length_init_ub column_start_c init_gene_idx_def)

lemma is_valid_iff:
  "is_valid e x \<longleftrightarrow> length x = length (m_lb e) \<and> (\<forall>i<length x. m_lb e ! i \<le> x ! i \<and> x ! i \<le> m_ub e ! i)"
  by (auto simp: is_valid_def list_all_iff not_less)

text \<open>A function node: its column, row, arity and genes.\<close>

lemma node_column:
  assumes "shape_ok e" "m_n e \<le> node_id" "node_id < m_n e + m_r e * m_c e"
  shows "(node_id - m_n e) div m_r e < m_c e" "(node_id - m_n e) mod m_r e < m_r e"
proof -
  have r: "0 < m_r e" using assms(1) by (rule shape_ok_sanity)
  have "node_id - m_n e < m_c e * m_r e" using assms(2,3) by (simp add: mult.commute)
  then show "(node_id - m_n e) div m_r e < m_c e" by (rule less_mult_imp_div_less)
  show "(node_id - m_n e) mod m_r e < m_r e" using r by simp
qed

lemma node_gene_idx:
  assumes "shape_ok e" "m_n e \<le> node_id" "node_id < m_n e + m_r e * m_c e"
  shows "m_gene_idx e ! node_id = gene_pos e ((node_id - m_n e) div m_r e) ((node_id - m_n e) mod m_r e)"
  using assms init_gene_idx_node [of e node_id] by (simp add: shape_ok_def)

lemma node_gene_less:
  assumes "shape_ok e" "m_n e \<le> node_id" "node_id < m_n e + m_r e * m_c e"
    "k \<le> get_arity_unchecked e node_id"
  shows "m_gene_idx e ! node_id + k < chromosome_size e - m_m e"
proof -
  have "gene_pos e ((node_id - m_n e) div m_r e) ((node_id - m_n e) mod m_r e) + k < column_start e (m_c e)"
    using assms node_column [of e node_id]
    by (intro gene_pos_less) (simp_all add: get_arity_unchecked_def)
  then show ?thesis
    using assms shape_ok_lengths(5) [of e] by (simp add: node_gene_idx)
qed

lemma node_function_gene_bounds:
  assumes "shape_ok e" "m_n e \<le> node_id" "node_id < m_n e + m_r e * m_c e"
  shows "m_lb e ! (m_gene_idx e ! node_id) = 0" "m_ub e ! (m_gene_idx e ! node_id) = length (m_f e) - 1"
proof -
  let ?col = "(node_id - m_n e) div m_r e" and ?row = "(node_id - m_n e) mod m_r e"
  have "init_lb e ! (gene_pos e ?col ?row + 0) = node_lb e ?col ! 0"
    using assms node_column [of e node_id] by (intro init_lb_gene) simp_all
  then show "m_lb e ! (m_gene_idx e ! node_id) = 0"
    using assms by (simp add: node_gene_idx shape_ok_tables(1) node_lb_def)
  have "init_ub e ! (gene_pos e ?col ?row + 0) = node_ub e ?col ! 0"
    using assms node_column [of e node_id] by (intro init_ub_gene) simp_all
  then show "m_ub e ! (m_gene_idx e ! node_id) = length (m_f e) - 1"
    using assms by (simp add: node_gene_idx shape_ok_tables(2) node_ub_def)
qed

lemma node_connection_gene_ub:
  assumes "shape_ok e" "m_n e \<le> node_id" "node_id < m_n e + m_r e * m_c e"
    "1 \<le> k" "k \<le> get_arity_unchecked e node_id"
  shows "m_ub e ! (m_gene_idx e ! node_id + k) = m_n e + (node_id - m_n e) div m_r e * m_r e - 1"
proof -
  let ?col = "(node_id - m_n e) div m_r e" and ?row = "(node_id - m_n e) mod m_r e"
  have "init_ub e ! (gene_pos e ?col ?row + k) = node_ub e ?col ! k"
    using assms node_column [of e node_id] by (intro init_ub_gene) (simp_all add: get_arity_unchecked_def)
  moreover obtain k' where "k = Suc k'" "k' < m_arity e ! ?col"
    using assms(4,5) by (cases k) (auto simp: get_arity_unchecked_def)
  ultimately show ?thesis
    using assms by (simp add: node_gene_idx shape_ok_tables(2) node_ub_def)
qed

text \<open>In a valid chromosome a connection gene selects an input or a node of an earlier column.\<close>

lemma connection_earlier:
  assumes "shape_ok e" "is_valid e (m_x e)" "m_n e \<le> node_id" "node_id < m_n e + m_r e * m_c e"
    "1 \<le> k" "k \<le> get_arity_unchecked e node_id"
  shows "m_x e ! (m_gene_idx e ! node_id + k) < m_n e + (node_id - m_n e) div m_r e * m_r e"
proof -
  have "m_gene_idx e ! node_id + k < length (m_x e)"
    using node_gene_less [of e node_id k] assms shape_ok_lengths(3) [of e] by simp
  then have "m_x e ! (m_gene_idx e ! node_id + k) \<le> m_ub e ! (m_gene_idx e ! node_id + k)"
    using assms(2) by (simp add: is_valid_iff)
  also have "\<dots> = m_n e + (node_id - m_n e) div m_r e * m_r e - 1"
    using assms by (intro node_connection_gene_ub)
  also have "\<dots> < m_n e + (node_id - m_n e) div m_r e * m_r e"
    using shape_ok_sanity(1) [OF assms(1)] by simp
  finally show ?thesis .
qed

lemma connection_rank:
  assumes "shape_ok e" "is_valid e (m_x e)" "m_n e \<le> node_id" "node_id < m_n e + m_r e * m_c e"
    "v \<in> set (node_connections e node_id)"
  shows "column_rank e v < column_rank e node_id" "v < m_n e + m_r e * m_c e"
proof -
  let ?col = "(node_id - m_n e) div m_r e"
  from assms(5) obtain k where k: "1 \<le> k" "k \<le> get_arity_unchecked e node_id"
    and v: "v = m_x e ! (m_gene_idx e ! node_id + k)"
    by (auto simp: node_connections_def)
  have less: "v < m_n e + ?col * m_r e"
    unfolding v using assms(1-4) k by (rule connection_earlier)
  have r: "0 < m_r e" using assms(1) by (rule shape_ok_sanity)
  have col: "?col < m_c e" using assms(1,3,4) by (rule node_column)
  show "column_rank e v < column_rank e node_id"
  proof (cases "v < m_n e")
    case True
    then show ?thesis using assms(3) by (simp add: column_rank_def)
  next
    case False
    with less have "v - m_n e < ?col * m_r e" by simp
    then have "(v - m_n e) div m_r e < ?col" by (rule less_mult_imp_div_less)
    with False assms(3) show ?thesis by (simp add: column_rank_def)
  qed
  note less
  also have "m_n e + ?col * m_r e \<le> m_n e + m_c e * m_r e"
    using col by (intro add_left_mono mult_le_mono1) simp
  also have "\<dots> = m_n e + m_r e * m_c e" by (simp add: mult.commute)
  finally show "v < m_n e + m_r e * m_c e" .
qed

lemma output_gene_node:
  assumes "shape_ok e" "is_valid e (m_x e)" "i < m_m e"
  shows "m_x e ! (length (m_x e) - m_m e + i) < m_n e + m_r e * m_c e"
proof -
  have len: "length (m_x e) = column_start e (m_c e) + m_m e"
    using shape_ok_lengths [OF assms(1)] by simp
  then have "m_x e ! (column_start e (m_c e) + i) \<le> m_ub e ! (column_start e (m_c e) + i)"
    using assms(2,3) by (simp add: is_valid_iff)
  also have "\<dots> = m_n e + m_r e * m_c e - 1"
    using assms init_ub_output [of i e] by (simp add: shape_ok_tables(2))
  also have "\<dots> < m_n e + m_r e * m_c e"
    using shape_ok_sanity(1) [OF assms(1)] by simp
  finally show ?thesis using len by simp
qed

section \<open>Termination of the back-wave\<close>

lemma max_column_rank_less_iff:
  "max_column_rank e nodes < k \<longleftrightarrow> 0 < k \<and> (\<forall>v\<in>set nodes. column_rank e v < k)"
  by (induction nodes) (auto simp: max_column_rank_def)

lemma column_rank_le_max: "v \<in> set nodes \<Longrightarrow> column_rank e v \<le> max_column_rank e nodes"
  by (induction nodes) (auto simp: max_column_rank_def)

lemma set_wave_next:
  "set (wave_next e current) = (\<Union>node_id \<in> {v \<in> set current. m_n e \<le> v}. set (node_connections e node_id))"
  by (auto simp: wave_next_def)

lemma wave_next_earlier:
  assumes "shape_ok e" "is_valid e (m_x e)" "\<forall>v\<in>set current. v < m_n e + m_r e * m_c e"
    "v \<in> set (wave_next e current)"
  shows "column_rank e v < max_column_rank e current" "v < m_n e + m_r e * m_c e"
proof -
  from assms(4) obtain node_id where node: "node_id \<in> set current" "m_n e \<le> node_id"
    and v: "v \<in> set (node_connections e node_id)"
    by (auto simp: set_wave_next)
  have less: "node_id < m_n e + m_r e * m_c e" using assms(3) node(1) by simp
  have "column_rank e v < column_rank e node_id"
    using assms(1,2) node(2) less v by (rule connection_rank)
  also have "\<dots> \<le> max_column_rank e current"
    using node(1) by (rule column_rank_le_max)
  finally show "column_rank e v < max_column_rank e current" .
  show "v < m_n e + m_r e * m_c e"
    using assms(1,2) node(2) less v by (rule connection_rank)
qed

lemma wave_next_rank_decreases:
  assumes "shape_ok e" "is_valid e (m_x e)" "\<forall>v\<in>set current. v < m_n e + m_r e * m_c e"
    "wave_next e current \<noteq> []"
  shows "max_column_rank e (wave_next e current) < max_column_rank e current"
proof -
  from assms(4) obtain v where v: "v \<in> set (wave_next e current)"
    by (cases "wave_next e current") auto
  have "column_rank e v < max_column_rank e current"
    using assms(1-3) v by (rule wave_next_earlier)
  then have "0 < max_column_rank e current" by simp
  moreover have "\<forall>v\<in>set (wave_next e current). column_rank e v < max_column_rank e current"
    using assms(1-3) wave_next_earlier(1) by blast
  ultimately show ?thesis by (simp add: max_column_rank_less_iff)
qed

lemma back_wave_terminates:
  assumes "shape_ok e" "is_valid e (m_x e)" "\<forall>v\<in>set current. v < m_n e + m_r e * m_c e"
  shows "\<exists>nodes. back_wave e current active = Some nodes"
  using assms(3)
proof (induction "max_column_rank e current" arbitrary: current active rule: less_induct)
  case less
  show ?case
  proof (cases "wave_next e current = []")
    case True
    then show ?thesis by (subst back_wave.simps) simp
  next
    case False
    have "max_column_rank e (wave_next e current) < max_column_rank e current"
      using assms(1,2) less.prems False by (rule wave_next_rank_decreases)
    moreover have "\<forall>v\<in>set (wave_next e current). v < m_n e + m_r e * m_c e"
      using assms(1,2) less.prems wave_next_earlier(2) by blast
    ultimately obtain nodes where
      "back_wave e (wave_next e current) (active @ wave_nodes e current) = Some nodes"
      using less.hyps by blast
    with False show ?thesis by (subst back_wave.simps) simp
  qed
qed

lemma output_nodes_in_range:
  assumes "shape_ok e" "is_valid e (m_x e)"
  shows "\<forall>v\<in>set (map (\<lambda>i. m_x e ! i) (output_genes e)). v < m_n e + m_r e * m_c e"
  using assms output_gene_node [of e] by (auto simp: output_genes_def)

lemma update_data_structures_terminates:
  assumes "shape_ok e" "is_valid e (m_x e)"
  shows "\<exists>e'. update_data_structures e = Some e'"
proof -
  obtain nodes where "back_wave e (map (\<lambda>i. m_x e ! i) (output_genes e)) [] = Some nodes"
    using back_wave_terminates [OF assms output_nodes_in_range [OF assms]] by blast
  then show ?thesis by (simp add: update_data_structures_def)
qed

section \<open>Frame properties\<close>

lemma distinct_remdups_adj_sorted: "sorted xs \<Longrightarrow> distinct (remdups_adj xs)"
  by (induction xs rule: remdups_adj.induct) auto

lemmas shape_defs = shape_ok_def sanity_checks_def init_lb_def init_ub_def init_gene_idx_def
  node_lb_def node_ub_def chromosome_size_def

lemmas derived_defs = active_genes_of_def node_genes_def output_genes_def get_arity_unchecked_def

lemma shape_ok_frame [simp]:
  "shape_ok (e\<lparr>m_e := g\<rparr>) = shape_ok e"
  "shape_ok (e\<lparr>m_active_nodes := an\<rparr>) = shape_ok e"
  "shape_ok (e\<lparr>m_active_genes := ag\<rparr>) = shape_ok e"
  "length x = length (m_x e) \<Longrightarrow> shape_ok (e\<lparr>m_x := x\<rparr>) = shape_ok e"
  by (simp_all add: shape_defs cong: if_cong)

lemma is_valid_frame [simp]:
  "is_valid (e\<lparr>m_e := g\<rparr>) = is_valid e"
  "is_valid (e\<lparr>m_active_nodes := an\<rparr>) = is_valid e"
  "is_valid (e\<lparr>m_active_genes := ag\<rparr>) = is_valid e"
  "is_valid (e\<lparr>m_x := x\<rparr>) = is_valid e"
  by (simp_all add: is_valid_def fun_eq_iff)

lemma get_arity_unchecked_frame [simp]:
  "get_arity_unchecked (e\<lparr>m_e := g\<rparr>) = get_arity_unchecked e"
  "get_arity_unchecked (e\<lparr>m_active_nodes := an\<rparr>) = get_arity_unchecked e"
  "get_arity_unchecked (e\<lparr>m_active_genes := ag\<rparr>) = get_arity_unchecked e"
  "get_arity_unchecked (e\<lparr>m_x := x\<rparr>) = get_arity_unchecked e"
  by (simp_all add: get_arity_unchecked_def fun_eq_iff)

lemma node_genes_frame [simp]:
  "node_genes (e\<lparr>m_e := g\<rparr>) = node_genes e"
  "node_genes (e\<lparr>m_active_nodes := an\<rparr>) = node_genes e"
  "node_genes (e\<lparr>m_active_genes := ag\<rparr>) = node_genes e"
  "node_genes (e\<lparr>m_x := x\<rparr>) = node_genes e"
  by (simp_all add: node_genes_def fun_eq_iff)

lemma output_genes_frame [simp]:
  "output_genes (e\<lparr>m_e := g\<rparr>) = output_genes e"
  "output_genes (e\<lparr>m_active_nodes := an\<rparr>) = output_genes e"
  "output_genes (e\<lparr>m_active_genes := ag\<rparr>) = output_genes e"
  "length x = length (m_x e) \<Longrightarrow> output_genes (e\<lparr>m_x := x\<rparr>) = output_genes e"
  by (simp_all add: output_genes_def)

lemma active_genes_of_frame [simp]:
  "active_genes_of (e\<lparr>m_e := g\<rparr>) = active_genes_of e"
  "active_genes_of (e\<lparr>m_active_nodes := an\<rparr>) = active_genes_of e"
  "active_genes_of (e\<lparr>m_active_genes := ag\<rparr>) = active_genes_of e"
  "length x = length (m_x e) \<Longrightarrow> active_genes_of (e\<lparr>m_x := x\<rparr>) = active_genes_of e"
  by (simp_all add: active_genes_of_def fun_eq_iff)

lemma expression_inv_engine [simp]: "expression_inv (e\<lparr>m_e := g\<rparr>) = expression_inv e"
  by (simp add: expression_inv_def)

lemma is_valid_update:
  assumes "is_valid e x" "idx < length x \<longrightarrow> m_lb e ! idx \<le> v \<and> v \<le> m_ub e ! idx"
  shows "is_valid e (x[idx := v])"
  using assms by (cases "idx < length x") (auto simp: is_valid_iff nth_list_update)

lemma expression_inv_update:
  assumes "expression_inv e" "idx < length (m_x e) \<longrightarrow> m_lb e ! idx \<le> v \<and> v \<le> m_ub e ! idx"
  shows "expression_inv (e\<lparr>m_x := (m_x e)[idx := v]\<rparr>)"
  using assms is_valid_update [of e "m_x e" idx v] by (simp add: expression_inv_def)

section \<open>What \<open>update_data_structures\<close> writes\<close>

lemma update_data_structures_Some:
  assumes "update_data_structures e = Some e'"
  obtains nodes where "back_wave e (map (\<lambda>i. m_x e ! i) (output_genes e)) [] = Some nodes"
    "e' = e\<lparr>m_active_nodes := remdups_adj (sort nodes),
            m_active_genes := active_genes_of e (remdups_adj (sort nodes))\<rparr>"
  using assms by (auto simp: update_data_structures_def split: option.splits)

lemma update_data_structures_inv:
  assumes "update_data_structures e = Some e'" "shape_ok e" "is_valid e (m_x e)"
  shows "expression_inv e'" "m_x e' = m_x e" "m_e e' = m_e e"
proof -
  from assms(1) obtain nodes where
    e': "e' = e\<lparr>m_active_nodes := remdups_adj (sort nodes),
                m_active_genes := active_genes_of e (remdups_adj (sort nodes))\<rparr>"
    by (rule update_data_structures_Some)
  show "expression_inv e'"
    using assms(2,3) by (simp add: e' expression_inv_def distinct_remdups_adj_sorted)
  show "m_x e' = m_x e" "m_e e' = m_e e" by (simp_all add: e')
qed

lemma refresh_inv:
  assumes "left_behind (refresh e) = Some e'" "shape_ok e" "is_valid e (m_x e)"
  shows "expression_inv e'"
  using assms update_data_structures_inv(1) [of e e']
  by (auto simp: refresh_def split: option.splits)

section \<open>The rejection loop\<close>

lemma uniform_int_distribution_range:
  assumes "uniform_int_distribution a b g = (v, g')"
  shows "a \<le> v" "a \<le> b \<Longrightarrow> v \<le> b" "g' = (fst g, Suc (snd g))"
proof -
  from assms have v: "v = a + fst g (snd g) mod (b - a + 1)" and g': "g' = (fst g, Suc (snd g))"
    by (simp_all add: uniform_int_distribution_def)
  show "a \<le> v" by (simp add: v)
  show "g' = (fst g, Suc (snd g))" by (rule g')
  assume "a \<le> b"
  moreover have "fst g (snd g) mod (b - a + 1) < b - a + 1"
    by (rule mod_less_divisor) simp
  ultimately show "v \<le> b" unfolding v by linarith
qed

lemma draw_new_value_result:
  assumes "draw_new_value lo hi old g = Some y"
  shows "fst y \<noteq> old \<and> lo \<le> fst y \<and> (lo \<le> hi \<longrightarrow> fst y \<le> hi) \<and>
         fst (snd y) = fst g \<and> snd g < snd (snd y)"
  using assms
proof (induction rule: draw_new_value.raw_induct [rotated, consumes 1])
  case (1 loop lo hi old g y)
  obtain w h where draw: "uniform_int_distribution lo hi g = (w, h)"
    by (cases "uniform_int_distribution lo hi g")
  note range = uniform_int_distribution_range [OF draw]
  show ?case
  proof (cases "w = old")
    case True
    with 1(2) draw have "loop lo hi old h = Some y" by simp
    then have "fst y \<noteq> old \<and> lo \<le> fst y \<and> (lo \<le> hi \<longrightarrow> fst y \<le> hi) \<and>
         fst (snd y) = fst h \<and> snd h < snd (snd y)"
      by (rule 1(1))
    then show ?thesis by (simp add: range(3))
  next
    case False
    with 1(2) draw have "y = (w, h)" by simp
    with False range show ?thesis by simp
  qed
qed

lemma draw_new_value_Some:
  assumes "draw_new_value lo hi old g = Some (v, g')"
  shows "v \<noteq> old" "lo \<le> v" "lo \<le> hi \<Longrightarrow> v \<le> hi" "fst g' = fst g" "snd g < snd g'"
  using draw_new_value_result [OF assms] by simp_all

lemma draw_new_value_terminates:
  assumes "draws_other lo hi old g i"
  shows "\<exists>v g'. draw_new_value lo hi old g = Some (v, g')"
  using assms
proof (induction i arbitrary: g)
  case 0
  then show ?case
    by (subst draw_new_value.simps) (simp add: draws_other_def uniform_int_distribution_def)
next
  case (Suc i)
  have "draws_other lo hi old (fst g, Suc (snd g)) i"
    using Suc.prems by (simp add: draws_other_def)
  then obtain v g' where "draw_new_value lo hi old (fst g, Suc (snd g)) = Some (v, g')"
    using Suc.IH by blast
  then show ?case
    by (subst draw_new_value.simps) (simp add: uniform_int_distribution_def)
qed

section \<open>Every call keeps the invariant\<close>

lemma expression_invD:
  assumes "expression_inv e"
  shows "shape_ok e" "is_valid e (m_x e)" "m_active_genes e = active_genes_of e (m_active_nodes e)"
    "sorted (m_active_nodes e)" "distinct (m_active_nodes e)"
  using assms by (simp_all add: expression_inv_def)

lemma mutate_gene_unwritten:
  assumes "mutate_gene idx e = Some (False, e')"
  shows "e' = e" "\<not> m_lb e ! idx < m_ub e ! idx"
  using assms by (auto simp: mutate_gene_def split: if_splits option.splits)

lemma mutate_gene_written:
  assumes "mutate_gene idx e = Some (True, e')"
  obtains v g where "e' = e\<lparr>m_x := (m_x e)[idx := v], m_e := g\<rparr>" "v \<noteq> m_x e ! idx"
    "m_lb e ! idx \<le> v" "v \<le> m_ub e ! idx" "fst g = fst (m_e e)" "snd (m_e e) < snd g"
    "m_lb e ! idx < m_ub e ! idx"
proof -
  from assms have less: "m_lb e ! idx < m_ub e ! idx"
    by (auto simp: mutate_gene_def split: if_splits option.splits)
  with assms obtain v g where
    draw: "draw_new_value (m_lb e ! idx) (m_ub e ! idx) (m_x e ! idx) (m_e e) = Some (v, g)"
    and e': "e' = e\<lparr>m_x := (m_x e)[idx := v], m_e := g\<rparr>"
    by (auto simp: mutate_gene_def split: option.splits)
  show ?thesis
    using that [OF e'] draw_new_value_Some [OF draw] less by simp
qed

lemma mutate_gene_inv:
  assumes "expression_inv e" "mutate_gene idx e = Some (written, e')"
  shows "expression_inv e'"
proof (cases written)
  case True
  with assms(2) obtain v g where "e' = e\<lparr>m_x := (m_x e)[idx := v], m_e := g\<rparr>"
    "m_lb e ! idx \<le> v" "v \<le> m_ub e ! idx"
    by (auto elim: mutate_gene_written)
  then show ?thesis
    using expression_inv_update [OF assms(1), of idx v] by simp
next
  case False
  then show ?thesis using mutate_gene_unwritten(1) [of idx e e'] assms by simp
qed

lemma refresh_keeps_inv:
  assumes "expression_inv e" "left_behind (refresh e) = Some e'"
  shows "expression_inv e'"
  using assms refresh_inv [of e e'] by (simp add: expression_invD)

lemma mutate_inv:
  assumes "expression_inv e" "left_behind (mutate idx e) = Some e'"
  shows "expression_inv e'"
proof (cases "idx \<ge> length (m_x e)")
  case True
  with assms show ?thesis by (simp add: mutate_def)
next
  case False
  show ?thesis
  proof (cases "mutate_gene idx e")
    case None
    with False assms(2) show ?thesis by (simp add: mutate_def)
  next
    case (Some p)
    obtain written e1 where p: "p = (written, e1)" by (cases p)
    have inv1: "expression_inv e1"
      using assms(1) Some unfolding p by (rule mutate_gene_inv)
    show ?thesis
    proof (cases written)
      case True
      with False Some p assms(2) have "left_behind (refresh e1) = Some e'"
        by (simp add: mutate_def)
      with inv1 show ?thesis by (rule refresh_keeps_inv)
    next
      case False
      with \<open>\<not> length (m_x e) \<le> idx\<close> Some p assms(2) inv1 show ?thesis
        by (simp add: mutate_def)
    qed
  qed
qed

lemma mutate_idxs_inv:
  assumes "expression_inv e" "left_behind (mutate_idxs idxs flag e) = Some e'"
  shows "expression_inv e'"
  using assms
proof (induction idxs arbitrary: flag e)
  case Nil
  then show ?case by (auto split: if_splits intro: refresh_keeps_inv)
next
  case (Cons idx idxs)
  show ?case
  proof (cases "idx \<ge> length (m_x e)")
    case True
    with Cons.prems show ?thesis by simp
  next
    case False
    show ?thesis
    proof (cases "mutate_gene idx e")
      case None
      with False Cons.prems show ?thesis by simp
    next
      case (Some p)
      obtain written e1 where p: "p = (written, e1)" by (cases p)
      have "expression_inv e1"
        using Cons.prems(1) Some unfolding p by (rule mutate_gene_inv)
      moreover have "left_behind (mutate_idxs idxs (written \<or> flag) e1) = Some e'"
        using False Some p Cons.prems(2) by simp
      ultimately show ?thesis by (rule Cons.IH)
    qed
  qed
qed

lemma mutate_random_loop_inv:
  assumes "expression_inv e" "left_behind (mutate_random_loop N flag e) = Some e'"
  shows "expression_inv e'"
  using assms
proof (induction N arbitrary: flag e)
  case 0
  then show ?case by (auto split: if_splits intro: refresh_keeps_inv)
next
  case (Suc N)
  obtain idx g where draw: "uniform_int_distribution 0 (length (m_lb e) - 1) (m_e e) = (idx, g)"
    by (cases "uniform_int_distribution 0 (length (m_lb e) - 1) (m_e e)")
  show ?case
  proof (cases "mutate_gene idx (e\<lparr>m_e := g\<rparr>)")
    case None
    with draw Suc.prems show ?thesis by simp
  next
    case (Some p)
    obtain written e1 where p: "p = (written, e1)" by (cases p)
    have "expression_inv (e\<lparr>m_e := g\<rparr>)" using Suc.prems(1) by simp
    then have "expression_inv e1"
      using Some unfolding p by (rule mutate_gene_inv)
    moreover have "left_behind (mutate_random_loop N (written \<or> flag) e1) = Some e'"
      using draw Some p Suc.prems(2) by simp
    ultimately show ?thesis by (rule Suc.IH)
  qed
qed

text \<open>A call to \<open>mutate\<close> inside a loop: the loop goes on when it returns and stops otherwise.\<close>

lemma loop_step_inv:
  assumes inv: "expression_inv e1"
    and step: "left_behind (case mutate idx e1 of Returns e2 \<Rightarrow> continue e2 | other \<Rightarrow> other) = Some e'"
    and rest: "\<And>e2. expression_inv e2 \<Longrightarrow> left_behind (continue e2) = Some e' \<Longrightarrow> expression_inv e'"
  shows "expression_inv e'"
proof (cases "mutate idx e1")
  case (Returns e2)
  then have "expression_inv e2" using mutate_inv [OF inv, of idx e2] by simp
  moreover have "left_behind (continue e2) = Some e'" using step Returns by simp
  ultimately show ?thesis by (rule rest)
next
  case (Throws err e2)
  then have "expression_inv e2" using mutate_inv [OF inv, of idx e2] by simp
  moreover have "e' = e2" using step Throws by simp
  ultimately show ?thesis by simp
next
  case Diverges
  with step show ?thesis by simp
next
  case Undefined
  with step show ?thesis by simp
qed

lemma mutate_active_inv:
  assumes "expression_inv e" "left_behind (mutate_active N e) = Some e'"
  shows "expression_inv e'"
  using assms
proof (induction N arbitrary: e)
  case 0
  then show ?case by simp
next
  case (Suc N)
  obtain idx g where draw: "uniform_int_distribution 0 (length (m_active_genes e) - 1) (m_e e) = (idx, g)"
    by (cases "uniform_int_distribution 0 (length (m_active_genes e) - 1) (m_e e)")
  show ?case
  proof (rule loop_step_inv [where ?e1.0 = "e\<lparr>m_e := g\<rparr>" and idx = "m_active_genes e ! idx"
        and continue = "mutate_active N"])
    show "expression_inv (e\<lparr>m_e := g\<rparr>)" using Suc.prems(1) by simp
    show "left_behind (case mutate (m_active_genes e ! idx) (e\<lparr>m_e := g\<rparr>) of
            Returns e2 \<Rightarrow> mutate_active N e2 | other \<Rightarrow> other) = Some e'"
      using Suc.prems(2) draw by simp
    show "\<And>e2. expression_inv e2 \<Longrightarrow> left_behind (mutate_active N e2) = Some e' \<Longrightarrow> expression_inv e'"
      by (rule Suc.IH)
  qed
qed

lemma mutate_active_fgene_loop_inv:
  assumes "expression_inv e" "left_behind (mutate_active_fgene_loop N e) = Some e'"
  shows "expression_inv e'"
  using assms
proof (induction N arbitrary: e)
  case 0
  then show ?case by simp
next
  case (Suc N)
  show ?case
  proof (cases "random_active_node e 0 (m_e e)")
    case None
    with Suc.prems show ?thesis by simp
  next
    case (Some p)
    obtain node_id g where p: "p = (node_id, g)" by (cases p)
    show ?thesis
    proof (rule loop_step_inv [where ?e1.0 = "e\<lparr>m_e := g\<rparr>" and idx = "m_gene_idx e ! node_id"
          and continue = "mutate_active_fgene_loop N"])
      show "expression_inv (e\<lparr>m_e := g\<rparr>)" using Suc.prems(1) by simp
      show "left_behind (case mutate (m_gene_idx e ! node_id) (e\<lparr>m_e := g\<rparr>) of
              Returns e2 \<Rightarrow> mutate_active_fgene_loop N e2 | other \<Rightarrow> other) = Some e'"
        using Suc.prems(2) Some p by simp
      show "\<And>e2. expression_inv e2 \<Longrightarrow> left_behind (mutate_active_fgene_loop N e2) = Some e'
              \<Longrightarrow> expression_inv e'"
        by (rule Suc.IH)
    qed
  qed
qed

lemma mutate_active_cgene_loop_inv:
  assumes "expression_inv e" "left_behind (mutate_active_cgene_loop N e) = Some e'"
  shows "expression_inv e'"
  using assms
proof (induction N arbitrary: e)
  case 0
  then show ?case by simp
next
  case (Suc N)
  show ?case
  proof (cases "random_active_node e 0 (m_e e)")
    case None
    with Suc.prems show ?thesis by simp
  next
    case (Some p)
    obtain node_id g where p: "p = (node_id, g)" by (cases p)
    obtain j g' where draw: "uniform_int_distribution 1 (get_arity_unchecked e node_id) g = (j, g')"
      by (cases "uniform_int_distribution 1 (get_arity_unchecked e node_id) g")
    show ?thesis
    proof (rule loop_step_inv [where ?e1.0 = "e\<lparr>m_e := g'\<rparr>" and idx = "m_gene_idx e ! node_id + j"
          and continue = "mutate_active_cgene_loop N"])
      show "expression_inv (e\<lparr>m_e := g'\<rparr>)" using Suc.prems(1) by simp
      show "left_behind (case mutate (m_gene_idx e ! node_id + j) (e\<lparr>m_e := g'\<rparr>) of
              Returns e2 \<Rightarrow> mutate_active_cgene_loop N e2 | other \<Rightarrow> other) = Some e'"
        using Suc.prems(2) Some p draw by simp
      show "\<And>e2. expression_inv e2 \<Longrightarrow> left_behind (mutate_active_cgene_loop N e2) = Some e'
              \<Longrightarrow> expression_inv e'"
        by (rule Suc.IH)
    qed
  qed
qed

lemma mutate_ogene_inv:
  assumes "expression_inv e" "left_behind (mutate_ogene N e) = Some e'"
  shows "expression_inv e'"
proof (cases "m_m e > 1")
  case False
  with assms(2) show ?thesis
    using mutate_inv [OF assms(1)] by (simp add: mutate_ogene_def)
next
  case True
  obtain idx g where draws:
    "ogene_draws N (length (m_active_genes e) - m_m e) (length (m_active_genes e) - 1) None (m_e e) = (idx, g)"
    by (cases "ogene_draws N (length (m_active_genes e) - m_m e) (length (m_active_genes e) - 1) None (m_e e)")
  show ?thesis
  proof (cases idx)
    case None
    with True draws assms(2) show ?thesis by (simp add: mutate_ogene_def)
  next
    case (Some i)
    have "expression_inv (e\<lparr>m_e := g\<rparr>)" using assms(1) by simp
    moreover have "left_behind (mutate (m_active_genes e ! i) (e\<lparr>m_e := g\<rparr>)) = Some e'"
      using True draws Some assms(2) by (simp add: mutate_ogene_def)
    ultimately show ?thesis by (rule mutate_inv)
  qed
qed

lemma set_chromosome_inv:
  assumes "expression_inv e" "left_behind (set_chromosome x e) = Some e'"
  shows "expression_inv e'"
proof (cases "is_valid e x")
  case False
  with assms show ?thesis by (simp add: set_chromosome_def)
next
  case True
  have len: "length x = length (m_x e)"
    using True expression_invD(1) [OF assms(1)] shape_ok_lengths(1,3) [of e]
    by (simp add: is_valid_iff)
  have "left_behind (refresh (e\<lparr>m_x := x\<rparr>)) = Some e'"
    using True assms(2) by (simp add: set_chromosome_def)
  moreover have "shape_ok (e\<lparr>m_x := x\<rparr>)"
    using len expression_invD(1) [OF assms(1)] by simp
  moreover have "is_valid (e\<lparr>m_x := x\<rparr>) (m_x (e\<lparr>m_x := x\<rparr>))"
    using True by simp
  ultimately show ?thesis by (rule refresh_inv)
qed

lemma set_f_gene_inv:
  assumes "expression_inv e" "left_behind (set_f_gene node_id f_id e) = Some e'"
  shows "expression_inv e'"
proof (cases "f_id > length (m_f e) - 1 \<or> node_id < m_n e \<or> node_id > m_n e + m_c e * m_r e - 1")
  case True
  with assms show ?thesis by (auto simp: set_f_gene_def split: if_splits)
next
  case False
  have shape: "shape_ok e" using assms(1) by (rule expression_invD)
  have node: "m_n e \<le> node_id" "node_id < m_n e + m_r e * m_c e"
    using False shape_ok_sanity(1) [OF shape] by (auto simp: mult.commute)
  have "m_lb e ! (m_gene_idx e ! node_id) \<le> f_id \<and> f_id \<le> m_ub e ! (m_gene_idx e ! node_id)"
    using False node_function_gene_bounds [OF shape node] by simp
  then have "expression_inv (e\<lparr>m_x := (m_x e)[m_gene_idx e ! node_id := f_id]\<rparr>)"
    using assms(1) by (intro expression_inv_update) simp_all
  with False assms(2) show ?thesis by (auto simp: set_f_gene_def)
qed

lemma exec_inv:
  assumes "expression_inv e" "left_behind (exec mc e) = Some e'"
  shows "expression_inv e'"
proof (cases mc)
  case (Set x)
  with assms show ?thesis using set_chromosome_inv by simp
next
  case (Set_f_gene node_id f_id)
  with assms show ?thesis using set_f_gene_inv by simp
next
  case (Mutate idx)
  with assms show ?thesis using mutate_inv by simp
next
  case (Mutate_list idxs)
  with assms show ?thesis using mutate_idxs_inv by (simp add: mutate_list_def)
next
  case (Mutate_random N)
  with assms show ?thesis using mutate_random_loop_inv by (simp add: mutate_random_def)
next
  case (Mutate_active N)
  with assms show ?thesis using mutate_active_inv by simp
next
  case (Mutate_active_fgene N)
  with assms show ?thesis using mutate_active_fgene_loop_inv
    by (auto simp: mutate_active_fgene_def split: if_splits)
next
  case (Mutate_active_cgene N)
  with assms show ?thesis using mutate_active_cgene_loop_inv
    by (auto simp: mutate_active_cgene_def split: if_splits)
next
  case (Mutate_ogene N)
  with assms show ?thesis using mutate_ogene_inv by simp
next
  case (Seed s)
  with assms show ?thesis by (auto simp: seed_def)
qed

section \<open>The constructor\<close>

lemma list_all2_concat:
  "list_all2 (list_all2 P) xss yss \<Longrightarrow> list_all2 P (concat xss) (concat yss)"
  by (induction rule: list_all2_induct) (auto intro: list_all2_appendI)

lemma list_all2_replicate_same:
  "(n > 0 \<Longrightarrow> P x y) \<Longrightarrow> list_all2 P (replicate n x) (replicate n y)"
  by (induction n) auto

lemma connection_bounds_ordered:
  assumes "0 < m_n e" "0 < m_r e" "0 < m_l e"
  shows "(if i \<ge> m_l e then m_n e + m_r e * (i - m_l e) else 0) \<le> m_n e + i * m_r e - 1"
proof (cases "i \<ge> m_l e")
  case True
  with assms(3) have "i - m_l e + 1 \<le> i" by simp
  then have "m_r e * (i - m_l e + 1) \<le> m_r e * i" by (rule mult_le_mono2)
  then have "m_r e * (i - m_l e) + m_r e \<le> i * m_r e" by (simp add: algebra_simps)
  with assms(2) have "m_r e * (i - m_l e) + 1 \<le> i * m_r e" by linarith
  with True show ?thesis by simp
next
  case False
  then show ?thesis by simp
qed

lemma init_lb_le_init_ub:
  assumes "sanity_checks e = None"
  shows "list_all2 (\<le>) (init_lb e) (init_ub e)"
proof -
  have pos: "0 < m_n e" "0 < m_r e" "0 < m_l e"
    using assms by (simp_all add: sanity_checks_None)
  have node: "list_all2 (\<le>) (node_lb e i) (node_ub e i)" for i
    unfolding node_lb_def node_ub_def
    using connection_bounds_ordered [OF pos, of i]
    by (auto intro!: list_all2_replicate_same)
  have "list_all2 (list_all2 (\<le>))
          (map (\<lambda>i. concat (replicate (m_r e) (node_lb e i))) [0..<m_c e])
          (map (\<lambda>i. concat (replicate (m_r e) (node_ub e i))) [0..<m_c e])"
    by (auto simp: list_all2_map1 list_all2_map2 list_all2_same
             intro!: list_all2_concat list_all2_replicate_same node)
  then have genes: "list_all2 (\<le>)
          (concat (map (\<lambda>i. concat (replicate (m_r e) (node_lb e i))) [0..<m_c e]))
          (concat (map (\<lambda>i. concat (replicate (m_r e) (node_ub e i))) [0..<m_c e]))"
    by (rule list_all2_concat)
  have "(if m_l e \<le> m_c e then m_n e + m_r e * (m_c e - m_l e) else 0) \<le> m_n e + m_r e * m_c e - 1"
    using connection_bounds_ordered [OF pos, of "m_c e"] by (simp add: mult.commute)
  then have "list_all2 (\<le>)
          (replicate (m_m e) (if m_l e \<le> m_c e then m_n e + m_r e * (m_c e - m_l e) else 0))
          (replicate (m_m e) (m_n e + m_r e * m_c e - 1))"
    by (intro list_all2_replicate_same)
  with genes show ?thesis
    unfolding init_lb_def init_ub_def by (rule list_all2_appendI)
qed

lemma shape_ok_bounds_ordered:
  assumes "shape_ok e" "i < chromosome_size e"
  shows "m_lb e ! i \<le> m_ub e ! i"
proof -
  have "list_all2 (\<le>) (m_lb e) (m_ub e)"
    using assms(1) init_lb_le_init_ub [of e] by (simp add: shape_ok_def)
  moreover have "i < length (m_lb e)"
    using assms shape_ok_lengths(1) [of e] by simp
  ultimately show ?thesis by (rule list_all2_nthD)
qed

text \<open>The random fill: after the first \<open>k\<close> draws the first \<open>k\<close> genes are within their bounds.\<close>

lemma random_fill:
  assumes "shape_ok e" "k \<le> length (m_x e)"
  shows "\<exists>x. foldl random_gene e [0..<k] = e\<lparr>m_x := x, m_e := (fst (m_e e), snd (m_e e) + k)\<rparr> \<and>
            length x = length (m_x e) \<and> (\<forall>i<k. m_lb e ! i \<le> x ! i \<and> x ! i \<le> m_ub e ! i)"
  using assms(2)
proof (induction k)
  case 0
  show ?case by (intro exI [of _ "m_x e"]) simp
next
  case (Suc k)
  then obtain x where x: "foldl random_gene e [0..<k] = e\<lparr>m_x := x, m_e := (fst (m_e e), snd (m_e e) + k)\<rparr>"
    "length x = length (m_x e)" "\<forall>i<k. m_lb e ! i \<le> x ! i \<and> x ! i \<le> m_ub e ! i"
    by auto
  let ?e = "e\<lparr>m_x := x, m_e := (fst (m_e e), snd (m_e e) + k)\<rparr>"
  obtain v g where draw: "uniform_int_distribution (m_lb e ! k) (m_ub e ! k) (m_e ?e) = (v, g)"
    by (cases "uniform_int_distribution (m_lb e ! k) (m_ub e ! k) (m_e ?e)")
  have k: "k < chromosome_size e"
    using Suc.prems shape_ok_lengths(3) [OF assms(1)] by simp
  have ordered: "m_lb e ! k \<le> m_ub e ! k"
    using assms(1) k by (rule shape_ok_bounds_ordered)
  note range = uniform_int_distribution_range [OF draw]
  have "foldl random_gene e [0..<Suc k] = random_gene ?e k"
    by (simp add: x(1))
  also have "\<dots> = e\<lparr>m_x := x[k := v], m_e := (fst (m_e e), snd (m_e e) + Suc k)\<rparr>"
    using draw range(3) by (simp add: random_gene_def)
  finally have "foldl random_gene e [0..<Suc k]
      = e\<lparr>m_x := x[k := v], m_e := (fst (m_e e), snd (m_e e) + Suc k)\<rparr>" .
  moreover have "\<forall>i<Suc k. m_lb e ! i \<le> x[k := v] ! i \<and> x[k := v] ! i \<le> m_ub e ! i"
    using x(2,3) Suc.prems range(1) range(2) [OF ordered]
    by (auto simp: nth_list_update less_Suc_eq)
  ultimately show ?case using x(2) by auto
qed

lemma random_chromosome_valid:
  assumes "shape_ok e"
  shows "shape_ok (random_chromosome e)" "is_valid (random_chromosome e) (m_x (random_chromosome e))"
proof -
  obtain x where x: "random_chromosome e = e\<lparr>m_x := x, m_e := (fst (m_e e), snd (m_e e) + length (m_x e))\<rparr>"
    "length x = length (m_x e)" "\<forall>i<length (m_x e). m_lb e ! i \<le> x ! i \<and> x ! i \<le> m_ub e ! i"
    using random_fill [OF assms, of "length (m_x e)"] unfolding random_chromosome_def by auto
  show "shape_ok (random_chromosome e)"
    using assms x(2) by (simp add: x(1))
  have "length (m_lb e) = length (m_x e)"
    using shape_ok_lengths(1,3) [OF assms] by simp
  then show "is_valid (random_chromosome e) (m_x (random_chromosome e))"
    using x(2,3) by (simp add: x(1) is_valid_iff)
qed

lemma init_bounds_and_chromosome_shape:
  assumes "sanity_checks e = None"
  shows "shape_ok (init_bounds_and_chromosome e)"
  using assms
  by (simp add: init_bounds_and_chromosome_def shape_defs cong: if_cong)

lemma expression_ctor_cases:
  "expression_ctor n m r c l arity f s = Some (Inr e) \<Longrightarrow>
   (\<exists>e0. sanity_checks e0 = None \<and> m_n e0 = n \<and> m_m e0 = m \<and> m_r e0 = r \<and> m_c e0 = c \<and>
         m_l e0 = l \<and> m_arity e0 = arity \<and> m_f e0 = f \<and>
         update_data_structures (random_chromosome (init_bounds_and_chromosome e0)) = Some e)"
  by (auto simp: expression_ctor_def Let_def split: option.splits)

lemma expression_ctor_inv:
  assumes "expression_ctor n m r c l arity f s = Some (Inr e)"
  shows "expression_inv e"
proof -
  from assms obtain e0 where e0: "sanity_checks e0 = None"
    "update_data_structures (random_chromosome (init_bounds_and_chromosome e0)) = Some e"
    using expression_ctor_cases by blast
  let ?e = "random_chromosome (init_bounds_and_chromosome e0)"
  have "shape_ok (init_bounds_and_chromosome e0)"
    using e0(1) by (rule init_bounds_and_chromosome_shape)
  then have "shape_ok ?e" "is_valid ?e (m_x ?e)"
    by (rule random_chromosome_valid)+
  with e0(2) show ?thesis by (rule update_data_structures_inv)
qed

lemma expression_ctor_returns:
  assumes "0 < n" "0 < m" "0 < r" "0 < c" "0 < l" "length arity = c" "\<forall>a\<in>set arity. a \<noteq> 0" "f \<noteq> []"
  shows "\<exists>e. expression_ctor n m r c l arity f s = Some (Inr e)"
proof -
  let ?start = "\<lparr>m_n = n, m_m = m, m_r = r, m_c = c, m_l = l, m_arity = arity, m_f = f,
                m_lb = [], m_ub = [], m_active_nodes = [], m_active_genes = [], m_x = [],
                m_gene_idx = [], m_e = (s, 0)\<rparr>"
  let ?e = "random_chromosome (init_bounds_and_chromosome ?start)"
  have sane: "sanity_checks ?start = None"
    using assms by (simp add: sanity_checks_None)
  then have "shape_ok (init_bounds_and_chromosome ?start)"
    by (rule init_bounds_and_chromosome_shape)
  then have "shape_ok ?e" "is_valid ?e (m_x ?e)"
    by (rule random_chromosome_valid)+
  then obtain e where upd: "update_data_structures ?e = Some e"
    using update_data_structures_terminates by blast
  have "expression_ctor n m r c l arity f s = Some (Inr e)"
    unfolding expression_ctor_def Let_def sane upd by simp
  then show ?thesis by blast
qed

lemma reachable_inv: "reachable e \<Longrightarrow> expression_inv e"
proof (induction rule: reachable.induct)
  case (constructed n m r c l arity f s e)
  then show ?case by (rule expression_ctor_inv)
next
  case (returned e mc e')
  then show ?case using exec_inv [of e mc e'] by simp
next
  case (thrown e mc err e')
  then show ?case using exec_inv [of e mc e'] by simp
qed

section \<open>The concrete expression\<close>

lemma small_expression_constructed:
  "expression_ctor 2 1 1 1 1 [2] [my_sum] counting_engine = Some (Inr small_expression)"
proof -
  obtain e where e: "expression_ctor 2 1 1 1 1 [2] [my_sum] counting_engine = Some (Inr e)"
    using expression_ctor_returns [of 2 1 1 1 1 "[2]" "[my_sum]" counting_engine] by auto
  then show ?thesis by (simp add: small_expression_def)
qed

lemma small_expression_reachable: "reachable small_expression"
  using small_expression_constructed by (rule reachable.constructed)

lemma small_expression_fields:
  "m_n small_expression = 2" "m_m small_expression = 1" "m_r small_expression = 1"
  "m_c small_expression = 1" "m_l small_expression = 1" "m_arity small_expression = [2]"
  "m_lb small_expression = [0, 0, 0, 2]" "m_ub small_expression = [0, 1, 1, 2]"
  "m_x small_expression = [0, 1, 0, 2]" "m_gene_idx small_expression = [0, 0, 0]"
  "m_active_nodes small_expression = [0, 1, 2]" "m_active_genes small_expression = [0, 1, 2, 3]"
  "snd (m_e small_expression) = 4"
  by code_simp+

section \<open>What a mutation of one gene changes\<close>

lemma refresh_result:
  assumes "refresh e = Returns e'"
  shows "m_x e' = m_x e" "m_lb e' = m_lb e" "m_ub e' = m_ub e" "m_e e' = m_e e"
proof -
  from assms have "update_data_structures e = Some e'"
    by (simp add: refresh_def split: option.splits)
  then obtain nodes where
    "e' = e\<lparr>m_active_nodes := remdups_adj (sort nodes),
            m_active_genes := active_genes_of e (remdups_adj (sort nodes))\<rparr>"
    by (rule update_data_structures_Some)
  then show "m_x e' = m_x e" "m_lb e' = m_lb e" "m_ub e' = m_ub e" "m_e e' = m_e e"
    by simp_all
qed

lemma refresh_outcomes: "refresh e \<noteq> Undefined" "refresh e \<noteq> Throws err e'"
  by (simp_all add: refresh_def split: option.splits)

lemma mutate_out_of_range: "length (m_x e) \<le> idx \<Longrightarrow> mutate idx e = Throws InvalidArgument e"
  by (simp add: mutate_def)

lemma mutate_in_range_outcomes:
  assumes "idx < length (m_x e)"
  shows "mutate idx e \<noteq> Undefined" "mutate idx e \<noteq> Throws err e'"
  using assms refresh_outcomes
  by (auto simp: mutate_def split: option.splits if_splits)

lemma mutate_degenerate:
  assumes "idx < length (m_x e)" "\<not> m_lb e ! idx < m_ub e ! idx"
  shows "mutate idx e = Returns e"
  using assms by (simp add: mutate_def mutate_gene_def)

lemma mutate_Returns:
  assumes "mutate idx e = Returns e'" "m_lb e ! idx < m_ub e ! idx"
  shows "idx < length (m_x e)" "m_x e' ! idx \<noteq> m_x e ! idx" "m_lb e ! idx \<le> m_x e' ! idx"
    "m_x e' ! idx \<le> m_ub e ! idx" "\<exists>v. m_x e' = (m_x e)[idx := v]"
proof -
  show less: "idx < length (m_x e)"
    using assms(1) by (auto simp: mutate_def split: if_splits)
  obtain written e1 where gene: "mutate_gene idx e = Some (written, e1)"
    using assms(1) less by (auto simp: mutate_def split: option.splits)
  have written using gene assms(2) mutate_gene_unwritten(2) [of idx e e1] by (cases written) auto
  with gene obtain v g where e1: "e1 = e\<lparr>m_x := (m_x e)[idx := v], m_e := g\<rparr>"
    and v: "v \<noteq> m_x e ! idx" "m_lb e ! idx \<le> v" "v \<le> m_ub e ! idx"
    by (auto elim: mutate_gene_written)
  have "refresh e1 = Returns e'"
    using assms(1) less gene \<open>written\<close> by (simp add: mutate_def)
  then have x: "m_x e' = (m_x e)[idx := v]"
    using refresh_result(1) [of e1 e'] by (simp add: e1)
  then show "\<exists>v. m_x e' = (m_x e)[idx := v]" by blast
  show "m_x e' ! idx \<noteq> m_x e ! idx" "m_lb e ! idx \<le> m_x e' ! idx" "m_x e' ! idx \<le> m_ub e ! idx"
    using less v by (simp_all add: x)
qed

lemma mutate_left_behind:
  assumes "left_behind (mutate idx e) = Some e'"
  shows "length (m_x e') = length (m_x e)" "\<And>j. j \<noteq> idx \<Longrightarrow> m_x e' ! j = m_x e ! j"
proof -
  have "\<exists>v. m_x e' = (m_x e)[idx := v]"
  proof (cases "length (m_x e) \<le> idx")
    case True
    then have "e' = e"
      using assms by (simp add: mutate_out_of_range)
    then show ?thesis by (metis list_update_id)
  next
    case False
    show ?thesis
    proof (cases "m_lb e ! idx < m_ub e ! idx")
      case True
      have "mutate idx e = Returns e'"
        using assms False mutate_in_range_outcomes [of idx e] by (cases "mutate idx e") auto
      then show ?thesis using True by (rule mutate_Returns(5))
    next
      case unordered: False
      then have "e' = e"
        using assms False by (simp add: mutate_degenerate)
      then show ?thesis by (metis list_update_id)
    qed
  qed
  then obtain v where "m_x e' = (m_x e)[idx := v]" by blast
  then show "length (m_x e') = length (m_x e)" "\<And>j. j \<noteq> idx \<Longrightarrow> m_x e' ! j = m_x e ! j"
    by simp_all
qed

lemma mutate_terminates:
  assumes "expression_inv e" "idx < length (m_x e)"
    "draws_other (m_lb e ! idx) (m_ub e ! idx) (m_x e ! idx) (m_e e) i"
  shows "\<exists>e'. mutate idx e = Returns e'"
proof (cases "m_lb e ! idx < m_ub e ! idx")
  case False
  with assms(2) show ?thesis by (simp add: mutate_degenerate)
next
  case True
  obtain v g where draw: "draw_new_value (m_lb e ! idx) (m_ub e ! idx) (m_x e ! idx) (m_e e) = Some (v, g)"
    using draw_new_value_terminates [OF assms(3)] by blast
  let ?e = "e\<lparr>m_x := (m_x e)[idx := v], m_e := g\<rparr>"
  have gene: "mutate_gene idx e = Some (True, ?e)"
    using True draw by (simp add: mutate_gene_def)
  have "expression_inv ?e"
    using assms(1) gene by (rule mutate_gene_inv)
  then obtain e' where "update_data_structures ?e = Some e'"
    using update_data_structures_terminates [of ?e] expression_invD(1,2) [of ?e] by blast
  then show ?thesis
    using assms(2) gene by (simp add: mutate_def refresh_def)
qed

section \<open>The output genes in \<open>active_genes\<close>\<close>

lemma ogene_draws_eq:
  "ogene_draws N lo hi idx g =
     (if N = 0 then idx else Some (lo + fst g (snd g + N - 1) mod (hi - lo + 1)), (fst g, snd g + N))"
proof (induction N arbitrary: idx g)
  case 0
  then show ?case by simp
next
  case (Suc N)
  have "ogene_draws (Suc N) lo hi idx g
      = ogene_draws N lo hi (Some (lo + fst g (snd g) mod (hi - lo + 1))) (fst g, Suc (snd g))"
    by (simp add: uniform_int_distribution_def)
  also have "\<dots> = (if N = 0 then Some (lo + fst g (snd g) mod (hi - lo + 1))
                    else Some (lo + fst g (Suc (snd g) + N - 1) mod (hi - lo + 1)),
                   (fst g, Suc (snd g) + N))"
    by (subst Suc.IH) simp
  also have "\<dots> = (Some (lo + fst g (snd g + Suc N - 1) mod (hi - lo + 1)), (fst g, snd g + Suc N))"
    by (cases N) simp_all
  finally show ?case by simp
qed

lemma active_genes_output:
  assumes "expression_inv e" "j < m_m e"
  shows "m_active_genes e ! (length (m_active_genes e) - m_m e + j) = length (m_x e) - m_m e + j"
    "m_m e \<le> length (m_active_genes e)"
proof -
  let ?nodes = "concat (map (node_genes e) (filter (\<lambda>node_id. node_id \<ge> m_n e) (m_active_nodes e)))"
  have ag: "m_active_genes e = ?nodes @ output_genes e"
    using expression_invD(3) [OF assms(1)] by (simp add: active_genes_of_def)
  have len: "length (output_genes e) = m_m e" by (simp add: output_genes_def)
  show "m_m e \<le> length (m_active_genes e)" by (simp add: ag len)
  have "m_active_genes e ! (length (m_active_genes e) - m_m e + j) = output_genes e ! j"
    by (simp add: ag len nth_append)
  also have "\<dots> = length (m_x e) - m_m e + j"
    using assms(2) by (simp add: output_genes_def)
  finally show "m_active_genes e ! (length (m_active_genes e) - m_m e + j) = length (m_x e) - m_m e + j" .
qed

lemma two_output_expression_constructed:
  "expression_ctor 2 2 1 1 2 [2] [my_sum] counting_engine = Some (Inr two_output_expression)"
proof -
  obtain e where e: "expression_ctor 2 2 1 1 2 [2] [my_sum] counting_engine = Some (Inr e)"
    using expression_ctor_returns [of 2 2 1 1 2 "[2]" "[my_sum]" counting_engine] by auto
  then show ?thesis by (simp add: two_output_expression_def)
qed

lemma two_output_expression_reachable: "reachable two_output_expression"
  using two_output_expression_constructed by (rule reachable.constructed)

lemma two_output_expression_fields:
  "m_n two_output_expression = 2" "m_m two_output_expression = 2"
  "m_lb two_output_expression = [0, 0, 0, 0, 0]" "m_ub two_output_expression = [0, 1, 1, 2, 2]"
  "m_x two_output_expression = [0, 1, 0, 0, 1]"
  "m_active_nodes two_output_expression = [0, 1]" "m_active_genes two_output_expression = [3, 4]"
  "snd (m_e two_output_expression) = 5" "fst (m_e two_output_expression) 7 = 7"
  by code_simp+





lemma random_chromosome_fields:
  assumes "shape_ok e"
  shows "\<exists>x g. random_chromosome e = e\<lparr>m_x := x, m_e := g\<rparr>"
  using random_fill [OF assms, of "length (m_x e)"] unfolding random_chromosome_def by auto

lemma expression_ctor_fields:
  assumes "expression_ctor n m r c l arity f s = Some (Inr e)"
  shows "m_n e = n" "m_m e = m" "m_r e = r" "m_c e = c" "m_l e = l" "m_arity e = arity" "m_f e = f"
    "shape_ok e"
proof -
  from assms obtain e0 where e0: "sanity_checks e0 = None"
    "m_n e0 = n" "m_m e0 = m" "m_r e0 = r" "m_c e0 = c" "m_l e0 = l" "m_arity e0 = arity" "m_f e0 = f"
    "update_data_structures (random_chromosome (init_bounds_and_chromosome e0)) = Some e"
    using expression_ctor_cases [of n m r c l arity f s e] by blast
  define e1 where "e1 = init_bounds_and_chromosome e0"
  have "shape_ok e1" using e0(1) unfolding e1_def by (rule init_bounds_and_chromosome_shape)
  then obtain x g where e2: "random_chromosome e1 = e1\<lparr>m_x := x, m_e := g\<rparr>"
    using random_chromosome_fields by blast
  from e0(9) obtain nodes where
    e: "e = (random_chromosome e1)\<lparr>m_active_nodes := remdups_adj (sort nodes),
            m_active_genes := active_genes_of (random_chromosome e1) (remdups_adj (sort nodes))\<rparr>"
    unfolding e1_def [symmetric] by (rule update_data_structures_Some)
  have e1: "m_n e1 = n" "m_m e1 = m" "m_r e1 = r" "m_c e1 = c" "m_l e1 = l" "m_arity e1 = arity"
    "m_f e1 = f"
    using e0(2-8) by (simp_all add: e1_def init_bounds_and_chromosome_def)
  show "m_n e = n" "m_m e = m" "m_r e = r" "m_c e = c" "m_l e = l" "m_arity e = arity" "m_f e = f"
    using e1 by (simp_all add: e e2)
  show "shape_ok e"
    using expression_ctor_inv [OF assms] by (rule expression_invD)
qed

lemma scenario_bounds:
  assumes "expression_ctor 2 1 1 1 l [2] [f] s = Some (Inr e)"
  shows "m_lb e = [0, 0, 0, if l \<le> 1 then 2 + (1 - l) else 0]" "m_ub e = [0, 1, 1, 2]"
    "m_gene_idx e = [0, 0, 0]" "length (m_x e) = 4"
proof -
  note fields = expression_ctor_fields [OF assms]
  have l: "0 < l" using shape_ok_sanity(5) [OF fields(8)] fields(5) by simp
  show "m_lb e = [0, 0, 0, if l \<le> 1 then 2 + (1 - l) else 0]"
    using l by (simp add: shape_ok_tables(1) [OF fields(8)] init_lb_def node_lb_def fields numeral_2_eq_2)
  show "m_ub e = [0, 1, 1, 2]"
    by (simp add: shape_ok_tables(2) [OF fields(8)] init_ub_def node_ub_def fields numeral_2_eq_2)
  show "m_gene_idx e = [0, 0, 0]"
    by (simp add: shape_ok_tables(3) [OF fields(8)] init_gene_idx_def fields numeral_2_eq_2 numeral_3_eq_3)
  show "length (m_x e) = 4"
    by (simp add: shape_ok_lengths(3) [OF fields(8)] chromosome_size_def fields)
qed

section \<open>Two chromosomes that agree on the active genes\<close>

lemma node_connections_agree:
  assumes "m_n s2 = m_n s1" "m_r s2 = m_r s1" "m_arity s2 = m_arity s1" "m_gene_idx s2 = m_gene_idx s1"
    and "\<forall>k\<in>set (node_genes s1 node_id). m_x s2 ! k = m_x s1 ! k"
  shows "node_connections s2 node_id = node_connections s1 node_id"
proof -
  have arity: "get_arity_unchecked s2 node_id = get_arity_unchecked s1 node_id"
    using assms(1-3) by (simp add: get_arity_unchecked_def)
  have "m_x s2 ! (m_gene_idx s1 ! node_id + i) = m_x s1 ! (m_gene_idx s1 ! node_id + i)"
    if "i \<in> set [1..<get_arity_unchecked s1 node_id + 1]" for i
  proof -
    have "m_gene_idx s1 ! node_id + i \<in> set (node_genes s1 node_id)"
      using that by (auto simp: node_genes_def)
    with assms(5) show ?thesis by blast
  qed
  then show ?thesis
    unfolding node_connections_def arity assms(4) by (intro map_cong) simp_all
qed

lemma wave_next_agree:
  assumes "m_n s2 = m_n s1"
    and "\<forall>node_id\<in>set current. m_n s1 \<le> node_id \<longrightarrow> node_connections s2 node_id = node_connections s1 node_id"
  shows "wave_next s2 current = wave_next s1 current"
proof -
  have eq: "map (node_connections s2) (filter (\<lambda>node_id. m_n s1 \<le> node_id) current)
      = map (node_connections s1) (filter (\<lambda>node_id. m_n s1 \<le> node_id) current)"
    using assms(2) by (intro map_cong) simp_all
  show ?thesis unfolding wave_next_def assms(1) eq by (rule refl)
qed

lemma back_wave_agree:
  assumes "back_wave s1 current active = Some nodes"
  shows "m_n s2 = m_n s1 \<Longrightarrow>
         (\<forall>node_id\<in>set nodes. m_n s1 \<le> node_id \<longrightarrow> node_connections s2 node_id = node_connections s1 node_id) \<Longrightarrow>
         set current \<union> set active \<subseteq> set nodes \<and> back_wave s2 current active = Some nodes"
  using assms
proof (induction rule: back_wave.raw_induct [rotated, consumes 1])
  case (1 loop s1 current active nodes)
  have nodes_eq: "wave_nodes s2 current = wave_nodes s1 current"
    by (simp add: wave_nodes_def "1.prems"(1))
  show ?case
  proof (cases "wave_next s1 current = []")
    case True
    with "1.hyps" have nodes: "nodes = active @ wave_nodes s1 current" by simp
    then have sub: "set current \<union> set active \<subseteq> set nodes"
      by (auto simp: wave_nodes_def)
    then have "wave_next s2 current = wave_next s1 current"
      using "1.prems" by (intro wave_next_agree) auto
    then have "back_wave s2 current active = Some nodes"
      using True by (subst back_wave.simps) (simp add: nodes nodes_eq)
    with sub show ?thesis by simp
  next
    case False
    with "1.hyps" have "loop s1 (wave_next s1 current) (active @ wave_nodes s1 current) = Some nodes"
      by simp
    then have IH: "set (wave_next s1 current) \<union> set (active @ wave_nodes s1 current) \<subseteq> set nodes \<and>
        back_wave s2 (wave_next s1 current) (active @ wave_nodes s1 current) = Some nodes"
      using "1.prems" by (rule "1.IH")
    then have sub: "set current \<union> set active \<subseteq> set nodes"
      by (auto simp: wave_nodes_def)
    then have "wave_next s2 current = wave_next s1 current"
      using "1.prems" by (intro wave_next_agree) auto
    then have "back_wave s2 current active = Some nodes"
      using False IH by (subst back_wave.simps) (simp add: nodes_eq)
    with sub show ?thesis by simp
  qed
qed

lemma eval_node_agree:
  assumes "m_n s2 = m_n s1" "m_r s2 = m_r s1" "m_arity s2 = m_arity s1" "m_gene_idx s2 = m_gene_idx s1"
    "m_f s2 = m_f s1"
    and "m_n s1 \<le> node_id \<longrightarrow> (\<forall>k\<in>set (node_genes s1 node_id). m_x s2 ! k = m_x s1 ! k)"
  shows "eval_node s2 point node node_id = eval_node s1 point node node_id"
proof (cases "node_id < m_n s1")
  case True
  then show ?thesis by (simp add: eval_node_def assms(1))
next
  case False
  have arity: "get_arity_unchecked s2 node_id = get_arity_unchecked s1 node_id"
    using assms(1-3) by (simp add: get_arity_unchecked_def)
  have genes: "m_x s2 ! (m_gene_idx s1 ! node_id + j) = m_x s1 ! (m_gene_idx s1 ! node_id + j)"
    if "j \<le> get_arity_unchecked s1 node_id" for j
  proof -
    have "m_gene_idx s1 ! node_id + j \<in> set (node_genes s1 node_id)"
      using that by (auto simp: node_genes_def)
    with assms(6) False show ?thesis by simp
  qed
  have "m_x s2 ! (m_gene_idx s1 ! node_id + j + 1) = m_x s1 ! (m_gene_idx s1 ! node_id + j + 1)"
    if "j < get_arity_unchecked s1 node_id" for j
    using genes [of "Suc j"] that by simp
  then have inputs: "map (\<lambda>j. node ! (m_x s2 ! (m_gene_idx s1 ! node_id + j + 1))) [0..<get_arity_unchecked s1 node_id]
      = map (\<lambda>j. node ! (m_x s1 ! (m_gene_idx s1 ! node_id + j + 1))) [0..<get_arity_unchecked s1 node_id]"
    by (intro map_cong) simp_all
  have kernel: "m_x s2 ! (m_gene_idx s1 ! node_id) = m_x s1 ! (m_gene_idx s1 ! node_id)"
    using genes [of 0] by simp
  show ?thesis
    unfolding eval_node_def Let_def assms(1,4,5) arity inputs kernel by (rule refl)
qed

lemma call_agree:
  assumes "m_n s2 = m_n s1" "m_m s2 = m_m s1" "m_r s2 = m_r s1" "m_c s2 = m_c s1"
    "m_arity s2 = m_arity s1" "m_gene_idx s2 = m_gene_idx s1" "m_f s2 = m_f s1"
    "m_active_nodes s2 = m_active_nodes s1" "length (m_x s2) = length (m_x s1)"
    and nodes: "\<forall>node_id\<in>set (m_active_nodes s1). m_n s1 \<le> node_id \<longrightarrow>
            (\<forall>k\<in>set (node_genes s1 node_id). m_x s2 ! k = m_x s1 ! k)"
    and outputs: "\<forall>k\<in>set (output_genes s1). m_x s2 ! k = m_x s1 ! k"
  shows "call s2 point = call s1 point"
proof -
  have "foldl (eval_node s2 point) node (m_active_nodes s1) = foldl (eval_node s1 point) node (m_active_nodes s1)"
    for node
    using nodes assms(1,3,5,6,7) by (intro foldl_cong refl eval_node_agree) simp_all
  moreover have "m_x s2 ! (length (m_x s1) - m_m s1 + i) = m_x s1 ! (length (m_x s1) - m_m s1 + i)"
    if "i < m_m s1" for i
    using outputs that by (simp add: output_genes_def)
  ultimately show ?thesis
    by (simp add: call_def assms(1-4,8,9))
qed

lemma set_chromosome_Returns:
  assumes "expression_inv e" "is_valid e x"
  obtains nodes where
    "back_wave (e\<lparr>m_x := x\<rparr>) (map (\<lambda>i. x ! i) (output_genes (e\<lparr>m_x := x\<rparr>))) [] = Some nodes"
    "set_chromosome x e =
       Returns (e\<lparr>m_x := x, m_active_nodes := remdups_adj (sort nodes),
                  m_active_genes := active_genes_of (e\<lparr>m_x := x\<rparr>) (remdups_adj (sort nodes))\<rparr>)"
proof -
  have len: "length x = length (m_x e)"
    using assms(2) expression_invD(1) [OF assms(1)] shape_ok_lengths(1,3) [of e]
    by (simp add: is_valid_iff)
  have "shape_ok (e\<lparr>m_x := x\<rparr>)" "is_valid (e\<lparr>m_x := x\<rparr>) (m_x (e\<lparr>m_x := x\<rparr>))"
    using len assms(2) expression_invD(1) [OF assms(1)] by simp_all
  then obtain e' where upd: "update_data_structures (e\<lparr>m_x := x\<rparr>) = Some e'"
    using update_data_structures_terminates by blast
  then obtain nodes where
    nodes: "back_wave (e\<lparr>m_x := x\<rparr>) (map (\<lambda>i. m_x (e\<lparr>m_x := x\<rparr>) ! i) (output_genes (e\<lparr>m_x := x\<rparr>))) [] = Some nodes"
    and e': "e' = e\<lparr>m_x := x\<rparr>\<lparr>m_active_nodes := remdups_adj (sort nodes),
            m_active_genes := active_genes_of (e\<lparr>m_x := x\<rparr>) (remdups_adj (sort nodes))\<rparr>"
    by (rule update_data_structures_Some)
  have "set_chromosome x e = Returns e'"
    using assms(2) upd by (simp add: set_chromosome_def refresh_def)
  then show ?thesis
    using nodes that by (simp add: e')
qed

section \<open>The state a throwing \<open>mutate_list\<close> leaves\<close>

lemma stale_trace:
  "(case set_chromosome [0, 0, 0, 2] small_expression of
      Returns e \<Rightarrow>
        (case mutate_list [1, 4] e of
           Throws err e' \<Rightarrow>
             (case set_chromosome (get e') e' of
                Returns e'' \<Rightarrow>
                  Some (m_x e', m_active_nodes e', m_x e'', m_active_nodes e'',
                        m_n e', m_m e', m_r e', m_arity e', m_gene_idx e')
              | _ \<Rightarrow> None)
         | _ \<Rightarrow> None)
    | _ \<Rightarrow> None)
   = Some ([0, 1, 0, 2], [0, 2], [0, 1, 0, 2], [0, 1, 2], 2, 1, 1, [2], [0, 0, 0])"
  by code_simp

lemma stale_state:
  obtains e e' e'' :: "real expression" where
    "reachable e" "mutate_list [1, 4] e = Throws InvalidArgument e'" "reachable e'"
    "set_chromosome (get e') e' = Returns e''"
    "m_x e' = [0, 1, 0, 2]" "m_active_nodes e' = [0, 2]" "m_x e'' = [0, 1, 0, 2]"
    "m_active_nodes e'' = [0, 1, 2]" "m_n e' = 2" "m_m e' = 1" "m_r e' = 1" "m_arity e' = [2]"
    "m_gene_idx e' = [0, 0, 0]"
proof -
  obtain e where e: "set_chromosome [0, 0, 0, 2] small_expression = Returns e"
    using stale_trace by (cases "set_chromosome [0, 0, 0, 2] small_expression") simp_all
  obtain err e' where e': "mutate_list [1, 4] e = Throws err e'"
    using stale_trace e by (cases "mutate_list [1, 4] e") simp_all
  obtain e'' where e'': "set_chromosome (get e') e' = Returns e''"
    using stale_trace e e' by (cases "set_chromosome (get e') e'") simp_all
  have err: "err = InvalidArgument" by (cases err) simp
  have r: "reachable e"
    using small_expression_reachable e reachable.returned [of small_expression "Set [0, 0, 0, 2]" e]
    by simp
  have r': "reachable e'"
    using r e' reachable.thrown [of e "Mutate_list [1, 4]" err e'] by simp
  have fields: "m_x e' = [0, 1, 0, 2]" "m_active_nodes e' = [0, 2]" "m_x e'' = [0, 1, 0, 2]"
    "m_active_nodes e'' = [0, 1, 2]" "m_n e' = 2" "m_m e' = 1" "m_r e' = 1" "m_arity e' = [2]"
    "m_gene_idx e' = [0, 0, 0]"
    using stale_trace e e' e'' by simp_all
  show ?thesis
    using r e' [unfolded err] r' e'' fields by (rule that)
qed

section \<open>The active nodes are the nodes that feed an output\<close>

lemma back_wave_cong:
  assumes "m_n s2 = m_n s1" "\<And>node_id. node_connections s2 node_id = node_connections s1 node_id"
  shows "back_wave s2 current active = back_wave s1 current active"
proof (cases "back_wave s1 current active")
  case (Some nodes)
  then show ?thesis
    using back_wave_agree [OF Some, of s2] assms by simp
next
  case None
  show ?thesis
  proof (cases "back_wave s2 current active")
    case (Some nodes)
    then have "back_wave s1 current active = Some nodes"
      using back_wave_agree [OF Some, of s1] assms by simp
    with None show ?thesis by simp
  next
    case None': None
    with None show ?thesis by simp
  qed
qed

lemma node_connections_frame [simp]:
  "node_connections (e\<lparr>m_e := g\<rparr>) = node_connections e"
  "node_connections (e\<lparr>m_active_nodes := an\<rparr>) = node_connections e"
  "node_connections (e\<lparr>m_active_genes := ag\<rparr>) = node_connections e"
  by (simp_all add: node_connections_def fun_eq_iff)

lemma back_wave_frame [simp]:
  "back_wave (e\<lparr>m_e := g\<rparr>) = back_wave e"
  "back_wave (e\<lparr>m_active_nodes := an\<rparr>) = back_wave e"
  "back_wave (e\<lparr>m_active_genes := ag\<rparr>) = back_wave e"
  by ((rule ext)+, rule back_wave_cong, simp_all)+

lemma update_data_structures_engine:
  "update_data_structures (e\<lparr>m_e := g\<rparr>) = map_option (\<lambda>s. s\<lparr>m_e := g\<rparr>) (update_data_structures e)"
  by (simp add: update_data_structures_def split: option.splits)

lemma update_data_structures_idem:
  assumes "update_data_structures e = Some e'"
  shows "update_data_structures e' = Some e'"
proof -
  from assms obtain nodes where
    nodes: "back_wave e (map (\<lambda>i. m_x e ! i) (output_genes e)) [] = Some nodes"
    and e': "e' = e\<lparr>m_active_nodes := remdups_adj (sort nodes),
            m_active_genes := active_genes_of e (remdups_adj (sort nodes))\<rparr>"
    by (rule update_data_structures_Some)
  show ?thesis
    using nodes by (simp add: update_data_structures_def e')
qed

lemma consistent_engine [simp]: "consistent (e\<lparr>m_e := g\<rparr>) = consistent e"
proof -
  have forward: "consistent (s\<lparr>m_e := h\<rparr>)" if "consistent s" for s :: "'a expression" and h
    using that by (simp add: consistent_def update_data_structures_engine)
  show ?thesis
  proof
    assume "consistent (e\<lparr>m_e := g\<rparr>)"
    then have "consistent (e\<lparr>m_e := g\<rparr>\<lparr>m_e := m_e e\<rparr>)" by (rule forward)
    then show "consistent e" by simp
  next
    assume "consistent e"
    then show "consistent (e\<lparr>m_e := g\<rparr>)" by (rule forward)
  qed
qed

text \<open>Every node the loop collects feeds an output.\<close>

lemma back_wave_sound:
  assumes "back_wave e current active = Some nodes"
  shows "(\<forall>v\<in>set current \<union> set active. feeds_output e v) \<Longrightarrow> \<forall>v\<in>set nodes. feeds_output e v"
  using assms
proof (induction rule: back_wave.raw_induct [rotated, consumes 1])
  case (1 loop e current active nodes)
  have nodes: "\<forall>v\<in>set (active @ wave_nodes e current). feeds_output e v"
    using "1.prems" by (auto simp: wave_nodes_def)
  show ?case
  proof (cases "wave_next e current = []")
    case True
    with "1.hyps" nodes show ?thesis by simp
  next
    case False
    have "feeds_output e v" if "v \<in> set (wave_next e current)" for v
    proof -
      from that obtain node_id where node: "node_id \<in> set current" "m_n e \<le> node_id"
        and "v \<in> set (node_connections e node_id)"
        by (auto simp: set_wave_next)
      then obtain i where "1 \<le> i" "i \<le> get_arity_unchecked e node_id"
        "v = m_x e ! (m_gene_idx e ! node_id + i)"
        by (auto simp: node_connections_def)
      moreover have "feeds_output e node_id" using "1.prems" node(1) by simp
      ultimately show ?thesis using node(2) by (auto intro: feeds_output.connected)
    qed
    with nodes have "\<forall>v\<in>set (wave_next e current) \<union> set (active @ wave_nodes e current). feeds_output e v"
      by blast
    moreover have "loop e (wave_next e current) (active @ wave_nodes e current) = Some nodes"
      using "1.hyps" False by simp
    ultimately show ?thesis using "1.IH" by blast
  qed
qed

text \<open>The collected nodes are closed under the connections of their function nodes.\<close>

lemma back_wave_closed:
  assumes "back_wave e current active = Some nodes"
  shows "(\<forall>node_id\<in>set active. m_n e \<le> node_id \<longrightarrow>
            set (node_connections e node_id) \<subseteq> set active \<union> set current) \<Longrightarrow>
         \<forall>node_id\<in>set nodes. m_n e \<le> node_id \<longrightarrow> set (node_connections e node_id) \<subseteq> set nodes"
  using assms
proof (induction rule: back_wave.raw_induct [rotated, consumes 1])
  case (1 loop e current active nodes)
  have step: "set (node_connections e node_id) \<subseteq> set (active @ wave_nodes e current) \<union> set (wave_next e current)"
    if "node_id \<in> set (active @ wave_nodes e current)" "m_n e \<le> node_id" for node_id
  proof (cases "node_id \<in> set active")
    case True
    then show ?thesis using "1.prems" that(2) by (auto simp: wave_nodes_def)
  next
    case False
    with that(1) have "node_id \<in> set current" by (auto simp: wave_nodes_def)
    with that(2) show ?thesis by (auto simp: set_wave_next)
  qed
  show ?case
  proof (cases "wave_next e current = []")
    case True
    with "1.hyps" have "nodes = active @ wave_nodes e current" by simp
    with step True show ?thesis by auto
  next
    case False
    then have "loop e (wave_next e current) (active @ wave_nodes e current) = Some nodes"
      using "1.hyps" by simp
    then show ?thesis using step by (intro "1.IH") blast+
  qed
qed

lemma back_wave_contains:
  assumes "back_wave e current active = Some nodes"
  shows "set current \<union> set active \<subseteq> set nodes"
  using back_wave_agree [OF assms, of e] by simp

lemma update_data_structures_active_nodes:
  assumes "update_data_structures e = Some e'"
  shows "set (m_active_nodes e') = {v. feeds_output e v}"
proof -
  from assms obtain nodes where
    nodes: "back_wave e (map (\<lambda>i. m_x e ! i) (output_genes e)) [] = Some nodes"
    and e': "e' = e\<lparr>m_active_nodes := remdups_adj (sort nodes),
            m_active_genes := active_genes_of e (remdups_adj (sort nodes))\<rparr>"
    by (rule update_data_structures_Some)
  have "feeds_output e (m_x e ! k)" if "k \<in> set (output_genes e)" for k
  proof -
    from that obtain i where "i \<in> set [0..<m_m e]" "k = length (m_x e) - m_m e + i"
      unfolding output_genes_def set_map by blast
    then show ?thesis by (simp add: feeds_output.selected)
  qed
  then have "\<forall>v\<in>set (map (\<lambda>i. m_x e ! i) (output_genes e)) \<union> set []. feeds_output e v"
    by auto
  then have sound: "\<forall>v\<in>set nodes. feeds_output e v"
    by (rule back_wave_sound [OF nodes])
  have closed: "\<forall>node_id\<in>set nodes. m_n e \<le> node_id \<longrightarrow> set (node_connections e node_id) \<subseteq> set nodes"
    by (rule back_wave_closed [OF nodes]) simp
  have complete: "v \<in> set nodes" if "feeds_output e v" for v
    using that
  proof (induction rule: feeds_output.induct)
    case (selected i)
    then have "m_x e ! (length (m_x e) - m_m e + i) \<in> set (map (\<lambda>i. m_x e ! i) (output_genes e))"
      by (auto simp: output_genes_def)
    then show ?case using back_wave_contains [OF nodes] by blast
  next
    case (connected node_id i)
    then have "i \<in> {1..<get_arity_unchecked e node_id + 1}" by simp
    then have "m_x e ! (m_gene_idx e ! node_id + i)
        \<in> (\<lambda>i. m_x e ! (m_gene_idx e ! node_id + i)) ` {1..<get_arity_unchecked e node_id + 1}"
      by (rule imageI)
    then have "m_x e ! (m_gene_idx e ! node_id + i) \<in> set (node_connections e node_id)"
      by (simp only: node_connections_def set_map set_upt)
    with connected closed show ?case by blast
  qed
  show ?thesis using sound complete by (auto simp: e')
qed

lemma feeds_output_frame:
  fixes s1 s2 :: "'a expression"
  assumes "m_x s2 = m_x s1" "m_m s2 = m_m s1" "m_n s2 = m_n s1" "m_r s2 = m_r s1"
    "m_arity s2 = m_arity s1" "m_gene_idx s2 = m_gene_idx s1"
  shows "feeds_output s2 v \<longleftrightarrow> feeds_output s1 v"
proof -
  have one: "feeds_output t v" if "feeds_output s v" "m_x t = m_x s" "m_m t = m_m s" "m_n t = m_n s"
    "m_r t = m_r s" "m_arity t = m_arity s" "m_gene_idx t = m_gene_idx s"
    for s t :: "'a expression"
    using that
  proof (induction rule: feeds_output.induct)
    case (selected i)
    then show ?case using feeds_output.selected [of i t] by simp
  next
    case (connected node_id i)
    then show ?case
      using feeds_output.connected [of t node_id i] by (simp add: get_arity_unchecked_def)
  qed
  show ?thesis using one [of s1 s2] one [of s2 s1] assms by auto
qed

lemma consistent_active_nodes:
  assumes "consistent e"
  shows "set (m_active_nodes e) = {v. feeds_output e v}"
  using assms update_data_structures_active_nodes [of e e] by (simp add: consistent_def)

section \<open>Which calls leave the derived data up to date\<close>

lemma refresh_consistent:
  assumes "left_behind (refresh e) = Some e'"
  shows "consistent e'"
proof -
  from assms have "update_data_structures e = Some e'"
    by (simp add: refresh_def split: option.splits)
  then show ?thesis unfolding consistent_def by (rule update_data_structures_idem)
qed

lemma mutate_gene_consistent:
  assumes "flag \<or> consistent e" "mutate_gene idx e = Some (written, e1)"
  shows "(written \<or> flag) \<or> consistent e1"
proof (cases written)
  case True
  then show ?thesis by simp
next
  case False
  with assms(2) have "e1 = e" using mutate_gene_unwritten(1) [of idx e e1] by simp
  with assms(1) show ?thesis by auto
qed

lemma mutate_consistent:
  assumes "consistent e" "left_behind (mutate idx e) = Some e'"
  shows "consistent e'"
proof (cases "idx \<ge> length (m_x e)")
  case True
  with assms show ?thesis by (simp add: mutate_def)
next
  case in_range: False
  show ?thesis
  proof (cases "mutate_gene idx e")
    case None
    with in_range assms(2) show ?thesis by (simp add: mutate_def)
  next
    case (Some p)
    obtain written e1 where p: "p = (written, e1)" by (cases p)
    show ?thesis
    proof (cases written)
      case True
      with in_range Some p assms(2) have "left_behind (refresh e1) = Some e'"
        by (simp add: mutate_def)
      then show ?thesis by (rule refresh_consistent)
    next
      case False
      with Some p have "e1 = e" using mutate_gene_unwritten(1) [of idx e e1] by simp
      with in_range assms Some p False show ?thesis by (simp add: mutate_def)
    qed
  qed
qed

lemma mutate_idxs_consistent:
  assumes "flag \<or> consistent e" "mutate_idxs idxs flag e = Returns e'"
  shows "consistent e'"
  using assms
proof (induction idxs arbitrary: flag e)
  case Nil
  then show ?case using refresh_consistent [of e e'] by (auto split: if_splits)
next
  case (Cons idx idxs)
  show ?case
  proof (cases "mutate_gene idx e")
    case None
    with Cons.prems show ?thesis by (simp split: if_splits)
  next
    case (Some p)
    obtain written e1 where p: "p = (written, e1)" by (cases p)
    have "(written \<or> flag) \<or> consistent e1"
      using Cons.prems(1) Some unfolding p by (rule mutate_gene_consistent)
    moreover have "mutate_idxs idxs (written \<or> flag) e1 = Returns e'"
      using Some p Cons.prems(2) by (simp split: if_splits)
    ultimately show ?thesis by (rule Cons.IH)
  qed
qed

lemma mutate_random_loop_consistent:
  assumes "flag \<or> consistent e" "left_behind (mutate_random_loop N flag e) = Some e'"
  shows "consistent e'"
  using assms
proof (induction N arbitrary: flag e)
  case 0
  then show ?case using refresh_consistent [of e e'] by (auto split: if_splits)
next
  case (Suc N)
  obtain idx g where draw: "uniform_int_distribution 0 (length (m_lb e) - 1) (m_e e) = (idx, g)"
    by (cases "uniform_int_distribution 0 (length (m_lb e) - 1) (m_e e)")
  show ?case
  proof (cases "mutate_gene idx (e\<lparr>m_e := g\<rparr>)")
    case None
    with draw Suc.prems show ?thesis by simp
  next
    case (Some p)
    obtain written e1 where p: "p = (written, e1)" by (cases p)
    have "flag \<or> consistent (e\<lparr>m_e := g\<rparr>)" using Suc.prems(1) by simp
    then have "(written \<or> flag) \<or> consistent e1"
      using Some unfolding p by (rule mutate_gene_consistent)
    moreover have "left_behind (mutate_random_loop N (written \<or> flag) e1) = Some e'"
      using draw Some p Suc.prems(2) by simp
    ultimately show ?thesis by (rule Suc.IH)
  qed
qed

lemma loop_step_consistent:
  assumes cons: "consistent e1"
    and step: "left_behind (case mutate idx e1 of Returns e2 \<Rightarrow> continue e2 | other \<Rightarrow> other) = Some e'"
    and rest: "\<And>e2. consistent e2 \<Longrightarrow> left_behind (continue e2) = Some e' \<Longrightarrow> consistent e'"
  shows "consistent e'"
proof (cases "mutate idx e1")
  case (Returns e2)
  then have "consistent e2" using mutate_consistent [OF cons, of idx e2] by simp
  moreover have "left_behind (continue e2) = Some e'" using step Returns by simp
  ultimately show ?thesis by (rule rest)
next
  case (Throws err e2)
  then have "consistent e2" using mutate_consistent [OF cons, of idx e2] by simp
  moreover have "e' = e2" using step Throws by simp
  ultimately show ?thesis by simp
next
  case Diverges
  with step show ?thesis by simp
next
  case Undefined
  with step show ?thesis by simp
qed

lemma mutate_active_consistent:
  assumes "consistent e" "left_behind (mutate_active N e) = Some e'"
  shows "consistent e'"
  using assms
proof (induction N arbitrary: e)
  case 0
  then show ?case by simp
next
  case (Suc N)
  obtain idx g where draw: "uniform_int_distribution 0 (length (m_active_genes e) - 1) (m_e e) = (idx, g)"
    by (cases "uniform_int_distribution 0 (length (m_active_genes e) - 1) (m_e e)")
  show ?case
  proof (rule loop_step_consistent [where ?e1.0 = "e\<lparr>m_e := g\<rparr>" and idx = "m_active_genes e ! idx"
        and continue = "mutate_active N"])
    show "consistent (e\<lparr>m_e := g\<rparr>)" using Suc.prems(1) by simp
    show "left_behind (case mutate (m_active_genes e ! idx) (e\<lparr>m_e := g\<rparr>) of
            Returns e2 \<Rightarrow> mutate_active N e2 | other \<Rightarrow> other) = Some e'"
      using Suc.prems(2) draw by simp
    show "\<And>e2. consistent e2 \<Longrightarrow> left_behind (mutate_active N e2) = Some e' \<Longrightarrow> consistent e'"
      by (rule Suc.IH)
  qed
qed

lemma mutate_active_fgene_loop_consistent:
  assumes "consistent e" "left_behind (mutate_active_fgene_loop N e) = Some e'"
  shows "consistent e'"
  using assms
proof (induction N arbitrary: e)
  case 0
  then show ?case by simp
next
  case (Suc N)
  show ?case
  proof (cases "random_active_node e 0 (m_e e)")
    case None
    with Suc.prems show ?thesis by simp
  next
    case (Some p)
    obtain node_id g where p: "p = (node_id, g)" by (cases p)
    show ?thesis
    proof (rule loop_step_consistent [where ?e1.0 = "e\<lparr>m_e := g\<rparr>" and idx = "m_gene_idx e ! node_id"
          and continue = "mutate_active_fgene_loop N"])
      show "consistent (e\<lparr>m_e := g\<rparr>)" using Suc.prems(1) by simp
      show "left_behind (case mutate (m_gene_idx e ! node_id) (e\<lparr>m_e := g\<rparr>) of
              Returns e2 \<Rightarrow> mutate_active_fgene_loop N e2 | other \<Rightarrow> other) = Some e'"
        using Suc.prems(2) Some p by simp
      show "\<And>e2. consistent e2 \<Longrightarrow> left_behind (mutate_active_fgene_loop N e2) = Some e' \<Longrightarrow> consistent e'"
        by (rule Suc.IH)
    qed
  qed
qed

lemma mutate_active_cgene_loop_consistent:
  assumes "consistent e" "left_behind (mutate_active_cgene_loop N e) = Some e'"
  shows "consistent e'"
  using assms
proof (induction N arbitrary: e)
  case 0
  then show ?case by simp
next
  case (Suc N)
  show ?case
  proof (cases "random_active_node e 0 (m_e e)")
    case None
    with Suc.prems show ?thesis by simp
  next
    case (Some p)
    obtain node_id g where p: "p = (node_id, g)" by (cases p)
    obtain j g' where draw: "uniform_int_distribution 1 (get_arity_unchecked e node_id) g = (j, g')"
      by (cases "uniform_int_distribution 1 (get_arity_unchecked e node_id) g")
    show ?thesis
    proof (rule loop_step_consistent [where ?e1.0 = "e\<lparr>m_e := g'\<rparr>" and idx = "m_gene_idx e ! node_id + j"
          and continue = "mutate_active_cgene_loop N"])
      show "consistent (e\<lparr>m_e := g'\<rparr>)" using Suc.prems(1) by simp
      show "left_behind (case mutate (m_gene_idx e ! node_id + j) (e\<lparr>m_e := g'\<rparr>) of
              Returns e2 \<Rightarrow> mutate_active_cgene_loop N e2 | other \<Rightarrow> other) = Some e'"
        using Suc.prems(2) Some p draw by simp
      show "\<And>e2. consistent e2 \<Longrightarrow> left_behind (mutate_active_cgene_loop N e2) = Some e' \<Longrightarrow> consistent e'"
        by (rule Suc.IH)
    qed
  qed
qed

lemma mutate_ogene_consistent:
  assumes "consistent e" "left_behind (mutate_ogene N e) = Some e'"
  shows "consistent e'"
proof (cases "m_m e > 1")
  case False
  with assms(2) show ?thesis
    using mutate_consistent [OF assms(1)] by (simp add: mutate_ogene_def)
next
  case True
  obtain idx g where draws:
    "ogene_draws N (length (m_active_genes e) - m_m e) (length (m_active_genes e) - 1) None (m_e e) = (idx, g)"
    by (cases "ogene_draws N (length (m_active_genes e) - m_m e) (length (m_active_genes e) - 1) None (m_e e)")
  show ?thesis
  proof (cases idx)
    case None
    with True draws assms(2) show ?thesis by (simp add: mutate_ogene_def)
  next
    case (Some i)
    have "consistent (e\<lparr>m_e := g\<rparr>)" using assms(1) by simp
    moreover have "left_behind (mutate (m_active_genes e ! i) (e\<lparr>m_e := g\<rparr>)) = Some e'"
      using True draws Some assms(2) by (simp add: mutate_ogene_def)
    ultimately show ?thesis by (rule mutate_consistent)
  qed
qed

lemma set_chromosome_consistent:
  assumes "consistent e" "left_behind (set_chromosome x e) = Some e'"
  shows "consistent e'"
proof (cases "is_valid e x")
  case False
  with assms show ?thesis by (simp add: set_chromosome_def)
next
  case True
  with assms(2) have "left_behind (refresh (e\<lparr>m_x := x\<rparr>)) = Some e'"
    by (simp add: set_chromosome_def)
  then show ?thesis by (rule refresh_consistent)
qed

subsection \<open>The function gene of a node is no connection gene\<close>

lemma gene_idx_separated:
  assumes shape: "shape_ok e" and a: "m_n e \<le> a" "a < b" and b: "b < m_n e + m_r e * m_c e"
    and k: "k \<le> get_arity_unchecked e a"
  shows "m_gene_idx e ! a + k < m_gene_idx e ! b"
proof -
  let ?ca = "(a - m_n e) div m_r e" and ?ra = "(a - m_n e) mod m_r e"
  let ?cb = "(b - m_n e) div m_r e" and ?rb = "(b - m_n e) mod m_r e"
  have r: "0 < m_r e" using shape by (rule shape_ok_sanity)
  have a': "a < m_n e + m_r e * m_c e" "m_n e \<le> b" using a b by simp_all
  have ga: "m_gene_idx e ! a = gene_pos e ?ca ?ra"
    using shape a(1) a'(1) by (rule node_gene_idx)
  have gb: "m_gene_idx e ! b = gene_pos e ?cb ?rb"
    using shape a'(2) b by (rule node_gene_idx)
  have k': "k \<le> m_arity e ! ?ca" using k by (simp add: get_arity_unchecked_def)
  have ra: "?ra < m_r e" using r by simp
  have less: "a - m_n e < b - m_n e" using a by simp
  have le: "?ca \<le> ?cb" using less by (intro div_le_mono) simp
  show ?thesis
  proof (cases "?ca = ?cb")
    case True
    have "?ca * m_r e + ?ra < ?cb * m_r e + ?rb"
      using less by (simp only: div_mult_mod_eq)
    then have "?cb * m_r e + ?ra < ?cb * m_r e + ?rb" by (simp only: True)
    then have "?ra < ?rb" by (simp only: add_less_cancel_left)
    then have rows: "Suc ?ra \<le> ?rb" by (rule Suc_leI)
    have "gene_pos e ?ca ?ra + k < column_start e ?ca + Suc ?ra * (1 + m_arity e ! ?ca)"
      using k' by (simp add: gene_pos_def)
    also have "\<dots> \<le> column_start e ?ca + ?rb * (1 + m_arity e ! ?ca)"
      using rows by (intro add_left_mono mult_le_mono1)
    also have "\<dots> = gene_pos e ?cb ?rb" using True by (simp add: gene_pos_def)
    finally show ?thesis by (simp only: ga gb)
  next
    case False
    with le have "Suc ?ca \<le> ?cb" by simp
    have "gene_pos e ?ca ?ra + k < column_start e (Suc ?ca)"
      using ra k' by (rule gene_pos_less_Suc)
    also have "\<dots> \<le> column_start e ?cb"
      using \<open>Suc ?ca \<le> ?cb\<close> by (rule column_start_mono)
    also have "\<dots> \<le> gene_pos e ?cb ?rb" by (simp add: gene_pos_def)
    finally show ?thesis by (simp only: ga gb)
  qed
qed

lemma function_gene_not_connection:
  assumes shape: "shape_ok e"
    and node: "m_n e \<le> node_id" "node_id < m_n e + m_r e * m_c e"
    and v: "m_n e \<le> v" "v < m_n e + m_r e * m_c e"
    and i: "1 \<le> i" "i \<le> get_arity_unchecked e v"
  shows "m_gene_idx e ! v + i \<noteq> m_gene_idx e ! node_id"
proof -
  consider "v < node_id" | "v = node_id" | "node_id < v" by linarith
  then show ?thesis
  proof cases
    case 1
    then have "m_gene_idx e ! v + i < m_gene_idx e ! node_id"
      using shape v(1) node(2) i(2) by (intro gene_idx_separated)
    then show ?thesis by simp
  next
    case 2
    with i(1) show ?thesis by simp
  next
    case 3
    have "m_gene_idx e ! node_id + 0 < m_gene_idx e ! v"
      using shape node(1) 3 v(2) by (intro gene_idx_separated) simp_all
    then show ?thesis by simp
  qed
qed

lemma feeds_output_in_range:
  assumes "shape_ok e" "is_valid e (m_x e)" "feeds_output e v"
  shows "v < m_n e + m_r e * m_c e"
  using assms(3)
proof (induction rule: feeds_output.induct)
  case (selected i)
  then show ?case using output_gene_node [OF assms(1,2)] by simp
next
  case (connected node_id i)
  have "m_x e ! (m_gene_idx e ! node_id + i) < m_n e + (node_id - m_n e) div m_r e * m_r e"
    using assms(1,2) connected.hyps(2) connected.IH connected.hyps(3,4)
    by (rule connection_earlier)
  also have "\<dots> \<le> m_n e + m_c e * m_r e"
    using node_column(1) [OF assms(1) connected.hyps(2) connected.IH] by simp
  finally show ?case by (simp add: mult.commute)
qed

lemma set_f_gene_consistent:
  assumes inv: "expression_inv e" and cons: "consistent e"
    and ret: "set_f_gene node_id f_id e = Returns e'"
  shows "consistent e'"
proof -
  let ?p = "m_gene_idx e ! node_id"
  have shape: "shape_ok e" and valid: "is_valid e (m_x e)"
    using inv by (rule expression_invD)+
  have e': "e' = e\<lparr>m_x := (m_x e)[?p := f_id]\<rparr>"
    and range: "\<not> (node_id < m_n e \<or> node_id > m_n e + m_c e * m_r e - 1)"
    using ret by (auto simp: set_f_gene_def split: if_splits)
  have node: "m_n e \<le> node_id" "node_id < m_n e + m_r e * m_c e"
    using range shape_ok_sanity(1) [OF shape] by (auto simp: mult.commute)
  from cons have upd: "update_data_structures e = Some e" by (simp add: consistent_def)
  then obtain nodes where
    nodes: "back_wave e (map (\<lambda>i. m_x e ! i) (output_genes e)) [] = Some nodes"
    and e: "e = e\<lparr>m_active_nodes := remdups_adj (sort nodes),
            m_active_genes := active_genes_of e (remdups_adj (sort nodes))\<rparr>"
    by (rule update_data_structures_Some)
  have an: "m_active_nodes e = remdups_adj (sort nodes)"
    using arg_cong [OF e, of m_active_nodes] by simp
  have ag: "m_active_genes e = active_genes_of e (remdups_adj (sort nodes))"
    using arg_cong [OF e, of m_active_genes] by simp
  have "set (m_active_nodes e) = {v. feeds_output e v}"
    using cons by (rule consistent_active_nodes)
  then have feeds: "feeds_output e v" if "v \<in> set nodes" for v
    using that by (simp add: an)
  have in_range: "v < m_n e + m_r e * m_c e" if "v \<in> set nodes" for v
    using shape valid feeds [OF that] by (rule feeds_output_in_range)
  have p: "?p < chromosome_size e - m_m e"
    using node_gene_less [OF shape node, of 0] by simp
  have len: "length (m_x e) = chromosome_size e"
    using shape by (rule shape_ok_lengths)
  have outputs: "map (\<lambda>i. m_x e' ! i) (output_genes e') = map (\<lambda>i. m_x e ! i) (output_genes e)"
  proof -
    have "(m_x e)[?p := f_id] ! k = m_x e ! k" if "k \<in> set (output_genes e)" for k
    proof -
      from that have "length (m_x e) - m_m e \<le> k" by (auto simp: output_genes_def)
      with p len have "?p \<noteq> k" by simp
      then show ?thesis by (rule nth_list_update_neq)
    qed
    then have "map (\<lambda>i. (m_x e)[?p := f_id] ! i) (output_genes e) = map (\<lambda>i. m_x e ! i) (output_genes e)"
      by (intro map_cong refl)
    then show ?thesis by (simp add: e')
  qed
  have connections: "node_connections e' v = node_connections e v" if "v \<in> set nodes" "m_n e \<le> v" for v
  proof -
    have "(m_x e)[?p := f_id] ! (m_gene_idx e ! v + i) = m_x e ! (m_gene_idx e ! v + i)"
      if "i \<in> set [1..<get_arity_unchecked e v + 1]" for i
    proof -
      from that have "1 \<le> i" "i \<le> get_arity_unchecked e v" by auto
      with shape node \<open>m_n e \<le> v\<close> in_range [OF \<open>v \<in> set nodes\<close>]
      have "m_gene_idx e ! v + i \<noteq> ?p" by (intro function_gene_not_connection)
      then have "?p \<noteq> m_gene_idx e ! v + i" by (rule not_sym)
      then show ?thesis by (rule nth_list_update_neq)
    qed
    then have "map (\<lambda>i. (m_x e)[?p := f_id] ! (m_gene_idx e ! v + i)) [1..<get_arity_unchecked e v + 1]
             = map (\<lambda>i. m_x e ! (m_gene_idx e ! v + i)) [1..<get_arity_unchecked e v + 1]"
      by (intro map_cong refl)
    then show ?thesis by (simp add: node_connections_def e')
  qed
  have "back_wave e' (map (\<lambda>i. m_x e ! i) (output_genes e)) [] = Some nodes"
    using back_wave_agree [OF nodes, of e'] connections by (simp add: e')
  then have wave: "back_wave e' (map (\<lambda>i. m_x e' ! i) (output_genes e')) [] = Some nodes"
    by (simp only: outputs)
  have genes: "active_genes_of e' = active_genes_of e" by (simp add: e')
  have "update_data_structures e' =
      Some (e'\<lparr>m_active_nodes := m_active_nodes e, m_active_genes := m_active_genes e\<rparr>)"
    unfolding update_data_structures_def wave by (simp add: genes an ag [symmetric])
  also have "e'\<lparr>m_active_nodes := m_active_nodes e, m_active_genes := m_active_genes e\<rparr> = e'"
    by (simp add: e')
  finally show ?thesis by (simp add: consistent_def)
qed

lemma set_f_gene_throws: "set_f_gene node_id f_id e = Throws err e' \<Longrightarrow> e' = e"
  by (auto simp: set_f_gene_def split: if_splits)

text \<open>
  Every call but \<^verbatim>\<open>mutate(std::vector<unsigned>)\<close> leaves the derived data up to date,
  whether it returns or throws; \<^verbatim>\<open>mutate(std::vector<unsigned>)\<close> does when it returns.
\<close>

lemma exec_consistent:
  assumes "expression_inv e" "consistent e" "left_behind (exec mc e) = Some e'"
    and "exec mc e = Returns e' \<or> (\<forall>idxs. mc \<noteq> Mutate_list idxs)"
  shows "consistent e'"
proof (cases mc)
  case (Set x)
  with assms show ?thesis using set_chromosome_consistent by simp
next
  case (Set_f_gene node_id f_id)
  show ?thesis
  proof (cases "set_f_gene node_id f_id e")
    case (Returns e2)
    with assms(3) Set_f_gene have "set_f_gene node_id f_id e = Returns e'" by simp
    with assms(1,2) show ?thesis by (rule set_f_gene_consistent)
  next
    case (Throws err e2)
    with assms(3) Set_f_gene have "set_f_gene node_id f_id e = Throws err e'" by simp
    then have "e' = e" by (rule set_f_gene_throws)
    with assms(2) show ?thesis by simp
  next
    case Diverges
    with assms(3) Set_f_gene show ?thesis by simp
  next
    case Undefined
    with assms(3) Set_f_gene show ?thesis by simp
  qed
next
  case (Mutate idx)
  with assms show ?thesis using mutate_consistent by simp
next
  case (Mutate_list idxs)
  with assms(4) have "mutate_idxs idxs False e = Returns e'" by (simp add: mutate_list_def)
  with assms(2) show ?thesis using mutate_idxs_consistent [of False e idxs e'] by simp
next
  case (Mutate_random N)
  with assms show ?thesis using mutate_random_loop_consistent [of False e N e'] by (simp add: mutate_random_def)
next
  case (Mutate_active N)
  with assms show ?thesis using mutate_active_consistent by simp
next
  case (Mutate_active_fgene N)
  with assms show ?thesis using mutate_active_fgene_loop_consistent
    by (auto simp: mutate_active_fgene_def split: if_splits)
next
  case (Mutate_active_cgene N)
  with assms show ?thesis using mutate_active_cgene_loop_consistent
    by (auto simp: mutate_active_cgene_def split: if_splits)
next
  case (Mutate_ogene N)
  with assms show ?thesis using mutate_ogene_consistent by simp
next
  case (Seed s)
  with assms show ?thesis by (auto simp: seed_def)
qed

lemma expression_ctor_consistent:
  assumes "expression_ctor n m r c l arity f s = Some (Inr e)"
  shows "consistent e"
proof -
  from assms obtain e0 where
    "update_data_structures (random_chromosome (init_bounds_and_chromosome e0)) = Some e"
    using expression_ctor_cases by blast
  then show ?thesis unfolding consistent_def by (rule update_data_structures_idem)
qed

text \<open>
  While every call returns, the derived data stay those of the chromosome: the
  active nodes are the nodes that feed an output, and setting the chromosome the
  expression already has changes nothing.
\<close>

lemma reachable_by_returns_consistent:
  assumes "reachable_by_returns e"
  shows "expression_inv e \<and> consistent e"
  using assms
proof (induction rule: reachable_by_returns.induct)
  case (constructed n m r c l arity f s e)
  then show ?case using expression_ctor_inv expression_ctor_consistent by blast
next
  case (returned e mc e')
  then have "expression_inv e'" using exec_inv [of e mc e'] by simp
  moreover have "consistent e'" using returned exec_consistent [of e mc e'] by simp
  ultimately show ?case by simp
qed

lemma reachable_by_returns_reachable:
  assumes "reachable_by_returns e"
  shows "reachable e"
  using assms
  by (induction rule: reachable_by_returns.induct) (auto intro: reachable.intros)

lemma reachable_by_returns_active_nodes:
  assumes "reachable_by_returns e"
  shows "set (m_active_nodes e) = {v. feeds_output e v}"
  using reachable_by_returns_consistent [OF assms] consistent_active_nodes by blast

lemma reachable_by_returns_set_get:
  assumes "reachable_by_returns e"
  shows "set_chromosome (get e) e = Returns e"
proof -
  have "expression_inv e" "consistent e"
    using reachable_by_returns_consistent [OF assms] by simp_all
  then have "is_valid e (m_x e)" "update_data_structures e = Some e"
    by (simp_all add: expression_inv_def consistent_def)
  then show ?thesis by (simp add: set_chromosome_def get_def refresh_def)
qed

section \<open>Evaluation when the derived data are up to date\<close>

text \<open>
  When two chromosomes of the same expression are both installed by \<^verbatim>\<open>set\<close> and agree
  at every index of \<^verbatim>\<open>active_genes\<close>, the two expressions have the same active nodes
  and active genes and \<^verbatim>\<open>operator()\<close> returns the same result on every point.
\<close>

lemma set_evaluation_ignores_inactive_genes:
  fixes e :: "'a::zero expression"
  assumes "reachable e" "is_valid e x1" "is_valid e x2"
  shows "\<exists>e1 e2. set_chromosome x1 e = Returns e1 \<and> set_chromosome x2 e = Returns e2 \<and>
           m_x e1 = x1 \<and> m_x e2 = x2 \<and>
           ((\<forall>k\<in>set (m_active_genes e1). x1 ! k = x2 ! k) \<longrightarrow>
              m_active_nodes e2 = m_active_nodes e1 \<and> m_active_genes e2 = m_active_genes e1 \<and>
              (\<forall>point. call e2 point = call e1 point))"
proof -
  have inv: "expression_inv e" using assms(1) by (rule reachable_inv)
  have len: "length x1 = length (m_x e)" "length x2 = length (m_x e)"
    using assms(2,3) expression_invD(1) [OF inv] shape_ok_lengths(1,3) [of e]
    by (simp_all add: is_valid_iff)
  define s1 where "s1 = e\<lparr>m_x := x1\<rparr>"
  define s2 where "s2 = e\<lparr>m_x := x2\<rparr>"
  obtain nodes1 where nodes1: "back_wave s1 (map (\<lambda>i. x1 ! i) (output_genes s1)) [] = Some nodes1"
    and set1: "set_chromosome x1 e = Returns (s1\<lparr>m_active_nodes := remdups_adj (sort nodes1),
                  m_active_genes := active_genes_of s1 (remdups_adj (sort nodes1))\<rparr>)"
    unfolding s1_def using set_chromosome_Returns [OF inv assms(2)] by metis
  obtain nodes2 where nodes2: "back_wave s2 (map (\<lambda>i. x2 ! i) (output_genes s2)) [] = Some nodes2"
    and set2: "set_chromosome x2 e = Returns (s2\<lparr>m_active_nodes := remdups_adj (sort nodes2),
                  m_active_genes := active_genes_of s2 (remdups_adj (sort nodes2))\<rparr>)"
    unfolding s2_def using set_chromosome_Returns [OF inv assms(3)] by metis
  define e1 where "e1 = s1\<lparr>m_active_nodes := remdups_adj (sort nodes1),
                  m_active_genes := active_genes_of s1 (remdups_adj (sort nodes1))\<rparr>"
  define e2 where "e2 = s2\<lparr>m_active_nodes := remdups_adj (sort nodes2),
                  m_active_genes := active_genes_of s2 (remdups_adj (sort nodes2))\<rparr>"
  have same: "m_n s2 = m_n s1" "m_m s2 = m_m s1" "m_r s2 = m_r s1" "m_c s2 = m_c s1"
    "m_arity s2 = m_arity s1" "m_gene_idx s2 = m_gene_idx s1" "m_f s2 = m_f s1"
    "length (m_x s2) = length (m_x s1)" "m_x s1 = x1" "m_x s2 = x2"
    by (simp_all add: s1_def s2_def len)
  have outs: "output_genes s2 = output_genes s1"
    by (simp add: output_genes_def same(2,8))
  have node_genes: "node_genes s2 = node_genes s1"
    by (simp add: node_genes_def get_arity_unchecked_def same(1-7) fun_eq_iff)
  have genes_of: "active_genes_of s2 nodes = active_genes_of s1 nodes" for nodes
    unfolding active_genes_of_def node_genes same(1) outs by (rule refl)
  have agree: "m_active_nodes e2 = m_active_nodes e1 \<and> m_active_genes e2 = m_active_genes e1 \<and>
              (\<forall>point. call e2 point = call e1 point)"
    if active: "\<forall>k\<in>set (m_active_genes e1). x1 ! k = x2 ! k"
  proof -
    have ag: "set (m_active_genes e1)
        = (\<Union>node_id\<in>{v \<in> set nodes1. m_n s1 \<le> v}. set (node_genes s1 node_id)) \<union> set (output_genes s1)"
      by (auto simp: e1_def active_genes_of_def)
    have active': "m_x s2 ! k = m_x s1 ! k" if "k \<in> set (m_active_genes e1)" for k
      using active that by (simp add: same(9,10))
    have on_nodes: "\<forall>k\<in>set (node_genes s1 node_id). m_x s2 ! k = m_x s1 ! k"
      if "node_id \<in> set nodes1" "m_n s1 \<le> node_id" for node_id
    proof
      fix k
      assume "k \<in> set (node_genes s1 node_id)"
      with that have "k \<in> set (m_active_genes e1)" unfolding ag by blast
      then show "m_x s2 ! k = m_x s1 ! k" by (rule active')
    qed
    have on_outputs: "\<forall>k\<in>set (output_genes s1). m_x s2 ! k = m_x s1 ! k"
    proof
      fix k
      assume "k \<in> set (output_genes s1)"
      then have "k \<in> set (m_active_genes e1)" unfolding ag by blast
      then show "m_x s2 ! k = m_x s1 ! k" by (rule active')
    qed
    then have "map (\<lambda>i. x2 ! i) (output_genes s2) = map (\<lambda>i. x1 ! i) (output_genes s1)"
      unfolding outs using same(9,10) by (intro map_cong) simp_all
    moreover have "\<forall>node_id\<in>set nodes1. m_n s1 \<le> node_id \<longrightarrow>
        node_connections s2 node_id = node_connections s1 node_id"
      using on_nodes same(1,3,5,6) by (auto intro!: node_connections_agree)
    ultimately have "back_wave s2 (map (\<lambda>i. x2 ! i) (output_genes s2)) [] = Some nodes1"
      using back_wave_agree [OF nodes1 same(1)] by simp
    with nodes2 have eq: "nodes2 = nodes1" by simp
    have an: "m_active_nodes e2 = m_active_nodes e1" and ag_eq: "m_active_genes e2 = m_active_genes e1"
      by (simp_all add: e1_def e2_def eq genes_of)
    have "call e2 point = call e1 point" for point
    proof (rule call_agree)
      show "m_n e2 = m_n e1" "m_m e2 = m_m e1" "m_r e2 = m_r e1" "m_c e2 = m_c e1"
        "m_arity e2 = m_arity e1" "m_gene_idx e2 = m_gene_idx e1" "m_f e2 = m_f e1"
        "length (m_x e2) = length (m_x e1)"
        using same by (simp_all add: e1_def e2_def)
      show "m_active_nodes e2 = m_active_nodes e1" by (rule an)
      show "\<forall>node_id\<in>set (m_active_nodes e1). m_n e1 \<le> node_id \<longrightarrow>
              (\<forall>k\<in>set (node_genes e1 node_id). m_x e2 ! k = m_x e1 ! k)"
        using on_nodes by (simp add: e1_def e2_def)
      show "\<forall>k\<in>set (output_genes e1). m_x e2 ! k = m_x e1 ! k"
        using on_outputs by (simp add: e1_def e2_def)
    qed
    with an ag_eq show ?thesis by blast
  qed
  have "set_chromosome x1 e = Returns e1" "set_chromosome x2 e = Returns e2"
    using set1 set2 by (simp_all add: e1_def e2_def)
  moreover have "m_x e1 = x1" "m_x e2 = x2"
    by (simp_all add: e1_def e2_def same)
  ultimately show ?thesis using agree by blast
qed

lemma set_evaluation_ignores_inactive_genes_example:
  "reachable two_output_expression \<and>
   is_valid two_output_expression [0, 0, 0, 0, 1] \<and> is_valid two_output_expression [0, 1, 1, 0, 1] \<and>
   (\<exists>e1 e2. set_chromosome [0, 0, 0, 0, 1] two_output_expression = Returns e1 \<and>
            set_chromosome [0, 1, 1, 0, 1] two_output_expression = Returns e2 \<and>
            m_active_genes e1 = [3, 4] \<and> m_active_nodes e2 = m_active_nodes e1 \<and>
            call e2 [5, 9] = call e1 [5, 9])"
proof -
  have r: "reachable two_output_expression" by (rule two_output_expression_reachable)
  have v1: "is_valid two_output_expression [0, 0, 0, 0, 1]" by code_simp
  have v2: "is_valid two_output_expression [0, 1, 1, 0, 1]" by code_simp
  have ag: "(case set_chromosome [0, 0, 0, 0, 1] two_output_expression of
               Returns e \<Rightarrow> m_active_genes e | _ \<Rightarrow> []) = [3, 4]"
    by code_simp
  from set_evaluation_ignores_inactive_genes [OF r v1 v2]
  obtain e1 e2 where sets: "set_chromosome [0, 0, 0, 0, 1] two_output_expression = Returns e1"
      "set_chromosome [0, 1, 1, 0, 1] two_output_expression = Returns e2"
    and agree: "(\<forall>k\<in>set (m_active_genes e1). [0, 0, 0, 0, 1] ! k = [0, 1, 1, 0, 1::nat] ! k) \<longrightarrow>
              m_active_nodes e2 = m_active_nodes e1 \<and> m_active_genes e2 = m_active_genes e1 \<and>
              (\<forall>point. call e2 point = call e1 point)"
    by blast
  have genes: "m_active_genes e1 = [3, 4]" using ag sets(1) by simp
  then have "\<forall>k\<in>set (m_active_genes e1). [0, 0, 0, 0, 1] ! k = [0, 1, 1, 0, 1::nat] ! k"
    by simp
  with agree have "m_active_nodes e2 = m_active_nodes e1" "call e2 [5, 9] = call e1 [5, 9]"
    by blast+
  with r v1 v2 sets genes show ?thesis by blast
qed

text \<open>
  The same for any two states whose derived data are up to date, whatever calls
  led to them.
\<close>

lemma consistent_evaluation_ignores_inactive_genes:
  fixes e1 e2 :: "'a::zero expression"
  assumes cons: "consistent e1" "consistent e2"
    and same: "m_n e2 = m_n e1" "m_m e2 = m_m e1" "m_r e2 = m_r e1" "m_c e2 = m_c e1"
      "m_arity e2 = m_arity e1" "m_gene_idx e2 = m_gene_idx e1" "m_f e2 = m_f e1"
      "length (m_x e2) = length (m_x e1)"
    and active: "\<forall>k\<in>set (m_active_genes e1). m_x e2 ! k = m_x e1 ! k"
  shows "m_active_nodes e2 = m_active_nodes e1 \<and> m_active_genes e2 = m_active_genes e1 \<and>
         (\<forall>point. call e2 point = call e1 point)"
proof -
  from cons(1) have "update_data_structures e1 = Some e1" by (simp add: consistent_def)
  then obtain nodes1 where
    nodes1: "back_wave e1 (map (\<lambda>i. m_x e1 ! i) (output_genes e1)) [] = Some nodes1"
    and e1: "e1 = e1\<lparr>m_active_nodes := remdups_adj (sort nodes1),
              m_active_genes := active_genes_of e1 (remdups_adj (sort nodes1))\<rparr>"
    by (rule update_data_structures_Some)
  from cons(2) have "update_data_structures e2 = Some e2" by (simp add: consistent_def)
  then obtain nodes2 where
    nodes2: "back_wave e2 (map (\<lambda>i. m_x e2 ! i) (output_genes e2)) [] = Some nodes2"
    and e2: "e2 = e2\<lparr>m_active_nodes := remdups_adj (sort nodes2),
              m_active_genes := active_genes_of e2 (remdups_adj (sort nodes2))\<rparr>"
    by (rule update_data_structures_Some)
  have an1: "m_active_nodes e1 = remdups_adj (sort nodes1)"
    using arg_cong [OF e1, of m_active_nodes] by simp
  have ag1: "m_active_genes e1 = active_genes_of e1 (remdups_adj (sort nodes1))"
    using arg_cong [OF e1, of m_active_genes] by simp
  have an2: "m_active_nodes e2 = remdups_adj (sort nodes2)"
    using arg_cong [OF e2, of m_active_nodes] by simp
  have ag2: "m_active_genes e2 = active_genes_of e2 (remdups_adj (sort nodes2))"
    using arg_cong [OF e2, of m_active_genes] by simp
  have outs: "output_genes e2 = output_genes e1"
    by (simp add: output_genes_def same(2,8))
  have node_genes: "node_genes e2 = node_genes e1"
    by (simp add: node_genes_def get_arity_unchecked_def same(1-7) fun_eq_iff)
  have genes_of: "active_genes_of e2 nodes = active_genes_of e1 nodes" for nodes
    unfolding active_genes_of_def node_genes same(1) outs by (rule refl)
  have ag: "set (m_active_genes e1)
      = (\<Union>node_id\<in>{v \<in> set nodes1. m_n e1 \<le> v}. set (node_genes e1 node_id)) \<union> set (output_genes e1)"
    unfolding ag1 by (auto simp: active_genes_of_def)
  have on_nodes: "\<forall>k\<in>set (node_genes e1 node_id). m_x e2 ! k = m_x e1 ! k"
    if "node_id \<in> set nodes1" "m_n e1 \<le> node_id" for node_id
  proof
    fix k
    assume "k \<in> set (node_genes e1 node_id)"
    with that have "k \<in> set (m_active_genes e1)" unfolding ag by blast
    with active show "m_x e2 ! k = m_x e1 ! k" by blast
  qed
  have on_outputs: "\<forall>k\<in>set (output_genes e1). m_x e2 ! k = m_x e1 ! k"
  proof
    fix k
    assume "k \<in> set (output_genes e1)"
    then have "k \<in> set (m_active_genes e1)" unfolding ag by blast
    with active show "m_x e2 ! k = m_x e1 ! k" by blast
  qed
  then have "map (\<lambda>i. m_x e2 ! i) (output_genes e2) = map (\<lambda>i. m_x e1 ! i) (output_genes e1)"
    unfolding outs by (intro map_cong) simp_all
  moreover have "\<forall>node_id\<in>set nodes1. m_n e1 \<le> node_id \<longrightarrow>
      node_connections e2 node_id = node_connections e1 node_id"
    using on_nodes same(1,3,5,6) by (auto intro!: node_connections_agree)
  ultimately have "back_wave e2 (map (\<lambda>i. m_x e2 ! i) (output_genes e2)) [] = Some nodes1"
    using back_wave_agree [OF nodes1 same(1)] by simp
  with nodes2 have eq: "nodes2 = nodes1" by simp
  have an: "m_active_nodes e2 = m_active_nodes e1"
    by (simp only: an1 an2 eq)
  have ag_eq: "m_active_genes e2 = m_active_genes e1"
    by (simp only: ag1 ag2 eq genes_of)
  have "call e2 point = call e1 point" for point
  proof (rule call_agree)
    show "m_n e2 = m_n e1" "m_m e2 = m_m e1" "m_r e2 = m_r e1" "m_c e2 = m_c e1"
      "m_arity e2 = m_arity e1" "m_gene_idx e2 = m_gene_idx e1" "m_f e2 = m_f e1"
      "length (m_x e2) = length (m_x e1)"
      by (rule same)+
    show "m_active_nodes e2 = m_active_nodes e1" by (rule an)
    show "\<forall>node_id\<in>set (m_active_nodes e1). m_n e1 \<le> node_id \<longrightarrow>
            (\<forall>k\<in>set (node_genes e1 node_id). m_x e2 ! k = m_x e1 ! k)"
      using on_nodes by (simp add: an1)
    show "\<forall>k\<in>set (output_genes e1). m_x e2 ! k = m_x e1 ! k"
      by (rule on_outputs)
  qed
  with an ag_eq show ?thesis by blast
qed

text \<open>
  While every call returns, the evaluation is a function of the shape, the
  chromosome and the point, and does not depend on the inactive genes.
\<close>

lemma reachable_by_returns_evaluation:
  fixes e1 e2 :: "'a::zero expression"
  assumes reach: "reachable_by_returns e1" "reachable_by_returns e2"
    and same: "m_n e2 = m_n e1" "m_m e2 = m_m e1" "m_r e2 = m_r e1" "m_c e2 = m_c e1"
      "m_arity e2 = m_arity e1" "m_f e2 = m_f e1"
    and active: "\<forall>k\<in>set (m_active_genes e1). m_x e2 ! k = m_x e1 ! k"
  shows "m_active_nodes e2 = m_active_nodes e1 \<and> m_active_genes e2 = m_active_genes e1 \<and>
         (\<forall>point. call e2 point = call e1 point)"
proof -
  have inv: "expression_inv e1" "expression_inv e2" and cons: "consistent e1" "consistent e2"
    using reachable_by_returns_consistent [OF reach(1)] reachable_by_returns_consistent [OF reach(2)]
    by simp_all
  have shape: "shape_ok e1" "shape_ok e2"
    using inv by (simp_all add: expression_inv_def)
  have "init_gene_idx e2 = init_gene_idx e1"
    by (simp add: init_gene_idx_def same)
  then have idx: "m_gene_idx e2 = m_gene_idx e1"
    using shape_ok_tables(3) [OF shape(1)] shape_ok_tables(3) [OF shape(2)] by simp
  have "chromosome_size e2 = chromosome_size e1"
    by (simp add: chromosome_size_def same)
  then have len: "length (m_x e2) = length (m_x e1)"
    using shape_ok_lengths(3) [OF shape(1)] shape_ok_lengths(3) [OF shape(2)] by simp
  show ?thesis
    using cons same(1-5) idx same(6) len active
    by (rule consistent_evaluation_ignores_inactive_genes)
qed

section \<open>The claims\<close>

text \<open>
  C2. Claim: every failing operation leaves no partial state observable; in particular
  \<^verbatim>\<open>mutate(idxs)\<close> with some index \<open>k \<ge> S\<close> throws and leaves the chromosome,
  \<^verbatim>\<open>active_nodes\<close> and \<^verbatim>\<open>active_genes\<close> as they were.

  The code checks each index only when the loop reaches it. On the expression
  with \<open>n = 2\<close>, \<open>m = 1\<close>, one node of arity 2 and \<open>l = 1\<close> (so \<open>S = 4\<close>), after
  \<^verbatim>\<open>set({0, 0, 0, 2})\<close>, the call \<^verbatim>\<open>mutate({1, 4})\<close> rewrites gene 1 and then throws at
  index 4: the chromosome is \<open>[0, 1, 0, 2]\<close> while \<^verbatim>\<open>active_nodes\<close> is still
  \<open>[0, 2]\<close>, and the evaluation at \<open>(5, 9)\<close> returns 5 where the refreshed
  expression returns 14.
\<close>

theorem mutate_list_throws_half_done:
  "(case set_chromosome [0, 0, 0, 2] small_expression of
      Returns e \<Rightarrow>
        (observe e, call e [5, 9],
         case mutate_list [1, 4] e of
           Throws err e' \<Rightarrow>
             Some (err, observe e', call e' [5, 9],
                   map_option (\<lambda>e''. (observe e'', call e'' [5, 9])) (update_data_structures e'))
         | _ \<Rightarrow> None)
    | _ \<Rightarrow> (([], [], []), Inl InvalidArgument, None))
   = (([0, 0, 0, 2], [0, 2], [0, 1, 2, 3]), Inr [10],
      Some (InvalidArgument, ([0, 1, 0, 2], [0, 2], [0, 1, 2, 3]), Inr [5],
            Some (([0, 1, 0, 2], [0, 1, 2], [0, 1, 2, 3]), Inr [14])))"
  by code_simp







text \<open>
  C10. For \<open>N \<ge> 1\<close> a call \<^verbatim>\<open>mutate_ogene(N)\<close> is one call of \<^verbatim>\<open>mutate\<close> on an output
  gene: with \<open>m > 1\<close> the engine is advanced by \<open>N\<close> draws and the gene is the one
  selected by the last draw, with \<open>m = 1\<close> it is the gene \<open>S - 1\<close>. So there is an
  output gene \<open>k\<close> in \<open>[S - m, S - 1]\<close> such that whatever state the call leaves has
  the old chromosome at every other position; the call neither throws nor reads an
  uninitialised index.
\<close>

theorem mutate_ogene_one_output_gene:
  assumes "reachable e" "1 \<le> N"
  shows "(1 < m_m e \<longrightarrow>
            mutate_ogene N e =
              mutate (length (m_x e) - m_m e + fst (m_e e) (snd (m_e e) + N - 1) mod m_m e)
                (e\<lparr>m_e := (fst (m_e e), snd (m_e e) + N)\<rparr>)) \<and>
         (\<not> 1 < m_m e \<longrightarrow> mutate_ogene N e = mutate (length (m_x e) - 1) e) \<and>
         (\<exists>k. length (m_x e) - m_m e \<le> k \<and> k < length (m_x e) \<and>
              (\<forall>e'. left_behind (mutate_ogene N e) = Some e' \<longrightarrow>
                 length (m_x e') = length (m_x e) \<and> (\<forall>j. j \<noteq> k \<longrightarrow> m_x e' ! j = m_x e ! j))) \<and>
         mutate_ogene N e \<noteq> Undefined \<and> (\<forall>err e'. mutate_ogene N e \<noteq> Throws err e')"
proof -
  have inv: "expression_inv e" using assms(1) by (rule reachable_inv)
  have shape: "shape_ok e" using inv by (rule expression_invD)
  have m: "0 < m_m e" using shape by (rule shape_ok_sanity)
  have S: "m_m e \<le> length (m_x e)"
    using shape_ok_lengths(3) [OF shape] by (simp add: chromosome_size_def)
  have ag: "m_m e \<le> length (m_active_genes e)"
    using inv m by (rule active_genes_output)
  define j where "j = (if 1 < m_m e then fst (m_e e) (snd (m_e e) + N - 1) mod m_m e else m_m e - 1)"
  define g where "g = (if 1 < m_m e then (fst (m_e e), snd (m_e e) + N) else m_e e)"
  define k where "k = length (m_x e) - m_m e + j"
  have j: "j < m_m e" using m by (simp add: j_def)
  have k: "length (m_x e) - m_m e \<le> k" "k < length (m_x e)"
    using j S by (simp_all add: k_def)
  have pick: "m_active_genes e ! (length (m_active_genes e) - m_m e + j) = k"
    unfolding k_def using inv j by (rule active_genes_output)
  have range: "length (m_active_genes e) - 1 - (length (m_active_genes e) - m_m e) + 1 = m_m e"
    using ag m by simp
  have eq: "mutate_ogene N e = mutate k (e\<lparr>m_e := g\<rparr>)"
  proof (cases "1 < m_m e")
    case True
    have draws: "ogene_draws N (length (m_active_genes e) - m_m e) (length (m_active_genes e) - 1)
                   None (m_e e) = (Some (length (m_active_genes e) - m_m e + j), g)"
      unfolding ogene_draws_eq range using assms(2) True by (simp add: j_def g_def)
    show ?thesis
      unfolding mutate_ogene_def draws using True pick by simp
  next
    case False
    with m have one: "m_m e = 1" by simp
    have "length (m_active_genes e) - 1 = length (m_active_genes e) - m_m e + j"
      using one by (simp add: j_def)
    then show ?thesis
      using False pick by (simp add: mutate_ogene_def g_def)
  qed
  have in_range: "k < length (m_x (e\<lparr>m_e := g\<rparr>))" using k(2) by simp
  have frame: "length (m_x e') = length (m_x e) \<and> (\<forall>i. i \<noteq> k \<longrightarrow> m_x e' ! i = m_x e ! i)"
    if "left_behind (mutate_ogene N e) = Some e'" for e'
    using mutate_left_behind [of k "e\<lparr>m_e := g\<rparr>" e'] that by (simp add: eq)
  have "1 < m_m e \<longrightarrow>
            mutate_ogene N e =
              mutate (length (m_x e) - m_m e + fst (m_e e) (snd (m_e e) + N - 1) mod m_m e)
                (e\<lparr>m_e := (fst (m_e e), snd (m_e e) + N)\<rparr>)"
    by (simp add: eq k_def j_def g_def)
  moreover have "\<not> 1 < m_m e \<longrightarrow> mutate_ogene N e = mutate (length (m_x e) - 1) e"
  proof
    assume "\<not> 1 < m_m e"
    with m have "m_m e = 1" by simp
    then show "mutate_ogene N e = mutate (length (m_x e) - 1) e"
      by (simp add: eq k_def j_def g_def)
  qed
  moreover have "\<exists>k. length (m_x e) - m_m e \<le> k \<and> k < length (m_x e) \<and>
              (\<forall>e'. left_behind (mutate_ogene N e) = Some e' \<longrightarrow>
                 length (m_x e') = length (m_x e) \<and> (\<forall>j. j \<noteq> k \<longrightarrow> m_x e' ! j = m_x e ! j))"
    using k frame by blast
  moreover have "mutate_ogene N e \<noteq> Undefined" "\<forall>err e'. mutate_ogene N e \<noteq> Throws err e'"
    using mutate_in_range_outcomes [OF in_range] by (simp_all add: eq)
  ultimately show ?thesis by blast
qed

theorem mutate_ogene_one_output_gene_witness:
  "reachable two_output_expression \<and> (1::nat) \<le> 3 \<and> 1 < m_m two_output_expression \<and>
   mutate_ogene 3 two_output_expression
     = mutate 4 (two_output_expression\<lparr>m_e := (fst (m_e two_output_expression), 8)\<rparr>) \<and>
   mutate_ogene 3 two_output_expression \<noteq> Undefined"
proof -
  have r: "reachable two_output_expression" by (rule two_output_expression_reachable)
  have n: "(1::nat) \<le> 3" by simp
  have m: "1 < m_m two_output_expression" by (simp add: two_output_expression_fields)
  have cursor: "snd (m_e two_output_expression) + 3 = 8"
    by (simp add: two_output_expression_fields)
  have idx: "length (m_x two_output_expression) - m_m two_output_expression
      + fst (m_e two_output_expression) (8 - 1) mod m_m two_output_expression = 4"
    by (simp add: two_output_expression_fields)
  have "mutate_ogene 3 two_output_expression
     = mutate (length (m_x two_output_expression) - m_m two_output_expression
               + fst (m_e two_output_expression) (snd (m_e two_output_expression) + 3 - 1)
                   mod m_m two_output_expression)
         (two_output_expression\<lparr>m_e := (fst (m_e two_output_expression),
                                         snd (m_e two_output_expression) + 3)\<rparr>)"
    using mutate_ogene_one_output_gene [OF r n] m by blast
  then have "mutate_ogene 3 two_output_expression
     = mutate 4 (two_output_expression\<lparr>m_e := (fst (m_e two_output_expression), 8)\<rparr>)"
    by (simp only: idx cursor)
  moreover have "mutate_ogene 3 two_output_expression \<noteq> Undefined"
    using mutate_ogene_one_output_gene [OF r n] by blast
  ultimately show ?thesis using r m by simp
qed

text \<open>
  C3. \<^verbatim>\<open>mutate(k)\<close> throws exactly when \<open>k \<ge> S\<close>, and then leaves the state as it
  was. For \<open>k < S\<close> with \<open>lb[k] < ub[k]\<close>: when the call returns, gene \<open>k\<close> holds a
  value different from the old one and within \<open>[lb[k], ub[k]]\<close> and every other
  gene is unchanged; and it does return as soon as the engine has an output that
  the distribution maps to another value than the old one. For \<open>k < S\<close> with
  \<open>lb[k] = ub[k]\<close> the call returns the state unchanged.
\<close>

theorem mutate_single_gene:
  assumes "reachable e"
  shows "((\<exists>err e'. mutate k e = Throws err e') \<longleftrightarrow> length (m_x e) \<le> k) \<and>
         (length (m_x e) \<le> k \<longrightarrow> mutate k e = Throws InvalidArgument e) \<and>
         (k < length (m_x e) \<and> m_lb e ! k < m_ub e ! k \<longrightarrow>
            (\<forall>e'. mutate k e = Returns e' \<longrightarrow>
               m_x e' ! k \<noteq> m_x e ! k \<and> m_lb e ! k \<le> m_x e' ! k \<and> m_x e' ! k \<le> m_ub e ! k \<and>
               length (m_x e') = length (m_x e) \<and> (\<forall>j. j \<noteq> k \<longrightarrow> m_x e' ! j = m_x e ! j)) \<and>
            ((\<exists>i. draws_other (m_lb e ! k) (m_ub e ! k) (m_x e ! k) (m_e e) i) \<longrightarrow>
               (\<exists>e'. mutate k e = Returns e')) \<and>
            mutate k e \<noteq> Undefined) \<and>
         (k < length (m_x e) \<and> m_lb e ! k = m_ub e ! k \<longrightarrow> mutate k e = Returns e)"
proof -
  have inv: "expression_inv e" using assms by (rule reachable_inv)
  have throws: "(\<exists>err e'. mutate k e = Throws err e') \<longleftrightarrow> length (m_x e) \<le> k"
    using mutate_out_of_range [of e k] mutate_in_range_outcomes(2) [of k e]
    by (cases "length (m_x e) \<le> k") auto
  have unchanged: "length (m_x e) \<le> k \<longrightarrow> mutate k e = Throws InvalidArgument e"
    by (simp add: mutate_out_of_range)
  have mutated: "k < length (m_x e) \<and> m_lb e ! k < m_ub e ! k \<longrightarrow>
            (\<forall>e'. mutate k e = Returns e' \<longrightarrow>
               m_x e' ! k \<noteq> m_x e ! k \<and> m_lb e ! k \<le> m_x e' ! k \<and> m_x e' ! k \<le> m_ub e ! k \<and>
               length (m_x e') = length (m_x e) \<and> (\<forall>j. j \<noteq> k \<longrightarrow> m_x e' ! j = m_x e ! j)) \<and>
            ((\<exists>i. draws_other (m_lb e ! k) (m_ub e ! k) (m_x e ! k) (m_e e) i) \<longrightarrow>
               (\<exists>e'. mutate k e = Returns e')) \<and>
            mutate k e \<noteq> Undefined"
  proof (intro impI conjI allI)
    fix e'
    assume "k < length (m_x e) \<and> m_lb e ! k < m_ub e ! k" and ret: "mutate k e = Returns e'"
    then have less: "m_lb e ! k < m_ub e ! k" by simp
    show "m_x e' ! k \<noteq> m_x e ! k" using ret less by (rule mutate_Returns)
    show "m_lb e ! k \<le> m_x e' ! k" using ret less by (rule mutate_Returns)
    show "m_x e' ! k \<le> m_ub e ! k" using ret less by (rule mutate_Returns)
    show "length (m_x e') = length (m_x e)" using mutate_left_behind(1) [of k e e'] ret by simp
    show "m_x e' ! j = m_x e ! j" if "j \<noteq> k" for j
      using mutate_left_behind(2) [of k e e'] ret that by simp
  next
    assume "k < length (m_x e) \<and> m_lb e ! k < m_ub e ! k"
      and "\<exists>i. draws_other (m_lb e ! k) (m_ub e ! k) (m_x e ! k) (m_e e) i"
    then show "\<exists>e'. mutate k e = Returns e'"
      using mutate_terminates [OF inv, of k] by blast
  next
    assume "k < length (m_x e) \<and> m_lb e ! k < m_ub e ! k"
    then show "mutate k e \<noteq> Undefined" using mutate_in_range_outcomes(1) [of k e] by simp
  qed
  have degenerate: "k < length (m_x e) \<and> m_lb e ! k = m_ub e ! k \<longrightarrow> mutate k e = Returns e"
    using mutate_degenerate [of k e] by simp
  show ?thesis
    by (rule conjI [OF throws conjI [OF unchanged conjI [OF mutated degenerate]]])
qed

theorem mutate_single_gene_witness:
  "reachable small_expression \<and>
   1 < length (m_x small_expression) \<and> m_lb small_expression ! 1 < m_ub small_expression ! 1 \<and>
   draws_other (m_lb small_expression ! 1) (m_ub small_expression ! 1) (m_x small_expression ! 1)
     (m_e small_expression) 0 \<and>
   (\<exists>e'. mutate 1 small_expression = Returns e' \<and> m_x e' ! 1 \<noteq> m_x small_expression ! 1) \<and>
   0 < length (m_x small_expression) \<and> m_lb small_expression ! 0 = m_ub small_expression ! 0 \<and>
   mutate 0 small_expression = Returns small_expression \<and>
   length (m_x small_expression) \<le> 4 \<and>
   mutate 4 small_expression = Throws InvalidArgument small_expression"
proof -
  have r: "reachable small_expression" by (rule small_expression_reachable)
  have d: "draws_other (m_lb small_expression ! 1) (m_ub small_expression ! 1) (m_x small_expression ! 1)
     (m_e small_expression) 0"
    by code_simp
  have f: "1 < length (m_x small_expression)" "m_lb small_expression ! 1 < m_ub small_expression ! 1"
    "0 < length (m_x small_expression)" "m_lb small_expression ! 0 = m_ub small_expression ! 0"
    "length (m_x small_expression) \<le> 4"
    by (simp_all add: small_expression_fields)
  have "\<exists>e'. mutate 1 small_expression = Returns e'"
    using mutate_single_gene [OF r, of 1] d f(1,2) by blast
  then obtain e' where ret: "mutate 1 small_expression = Returns e'" by blast
  then have "m_x e' ! 1 \<noteq> m_x small_expression ! 1"
    using mutate_single_gene [OF r, of 1] f(1,2) by blast
  with ret have one: "\<exists>e'. mutate 1 small_expression = Returns e' \<and> m_x e' ! 1 \<noteq> m_x small_expression ! 1"
    by blast
  have zero: "mutate 0 small_expression = Returns small_expression"
    using mutate_single_gene [OF r, of 0] f(3,4) by blast
  have four: "mutate 4 small_expression = Throws InvalidArgument small_expression"
    using mutate_single_gene [OF r, of 4] f(5) by blast
  show ?thesis using r d f one zero four by simp
qed

text \<open>
  C1. Claim: with \<open>n = 2\<close>, \<open>m = 1\<close>, \<open>r = 1\<close>, \<open>c = 1\<close>, \<open>L = 1\<close>, \<open>arity = [2]\<close> and
  the single kernel sum, \<^verbatim>\<open>set\<close> accepts the chromosome \<open>[0, 0, 1, 0]\<close>.

  It does not: with \<open>L = 1 \<le> c\<close> the bounds of the output gene are
  \<open>lb = n + r (c - L) = 2\<close> and \<open>ub = n + r c - 1 = 2\<close>, so an output cannot select
  an input and \<^verbatim>\<open>is_valid\<close> rejects the chromosome.
\<close>

theorem scenario_chromosome_rejected:
  "map_option
     (map_sum id (\<lambda>e. (m_lb e ! 3, m_ub e ! 3, is_valid e [0, 0, 1, 0],
                         case set_chromosome [0, 0, 1, 0] e of
                           Throws err e' \<Rightarrow> Some (err, observe e' = observe e)
                         | _ \<Rightarrow> None)))
     (expression_ctor 2 1 1 1 1 [2] [my_sum] counting_engine)
   = Some (Inr (2, 2, False, Some (InvalidArgument, True)))"
  by code_simp

text \<open>
  C1, amended. With \<open>L = 1\<close> the chromosome \<open>[0, 0, 1, 0]\<close> is rejected by \<^verbatim>\<open>set\<close>, which
  throws and leaves the state as it was. With two levels back (\<open>L = 2 > c\<close>, the
  rest of the shape as before, whatever the kernel and the seed) the output gene
  ranges over \<open>[0, 2]\<close>, \<^verbatim>\<open>set\<close> accepts \<open>[0, 0, 1, 0]\<close>, and afterwards
  \<^verbatim>\<open>active_nodes\<close> is \<open>[0]\<close>, \<^verbatim>\<open>active_genes\<close> is \<open>[3]\<close> and the evaluation at the point
  \<open>(a, b)\<close> returns \<open>[a]\<close>.
\<close>

theorem scenario_active_set_minimal:
  fixes f :: "'a::zero list \<Rightarrow> 'a"
  shows "(\<exists>e. expression_ctor 2 1 1 1 1 [2] [f] s = Some (Inr e) \<and>
              m_lb e ! 3 = 2 \<and> m_ub e ! 3 = 2 \<and> \<not> is_valid e [0, 0, 1, 0] \<and>
              set_chromosome [0, 0, 1, 0] e = Throws InvalidArgument e) \<and>
         (\<exists>e e'. expression_ctor 2 1 1 1 2 [2] [f] s = Some (Inr e) \<and>
              is_valid e [0, 0, 1, 0] \<and> set_chromosome [0, 0, 1, 0] e = Returns e' \<and>
              m_x e' = [0, 0, 1, 0] \<and> m_active_nodes e' = [0] \<and> m_active_genes e' = [3] \<and>
              call e' [a, b] = Inr [a])"
proof
  obtain e where e: "expression_ctor 2 1 1 1 1 [2] [f] s = Some (Inr e)"
    using expression_ctor_returns [of 2 1 1 1 1 "[2]" "[f]" s] by auto
  note bounds = scenario_bounds [OF e]
  have invalid: "\<not> is_valid e [0, 0, 1, 0]"
    by (simp add: is_valid_def bounds upt_rec numeral_eq_Suc)
  then have "set_chromosome [0, 0, 1, 0] e = Throws InvalidArgument e"
    by (simp add: set_chromosome_def)
  with e invalid show "\<exists>e. expression_ctor 2 1 1 1 1 [2] [f] s = Some (Inr e) \<and>
              m_lb e ! 3 = 2 \<and> m_ub e ! 3 = 2 \<and> \<not> is_valid e [0, 0, 1, 0] \<and>
              set_chromosome [0, 0, 1, 0] e = Throws InvalidArgument e"
    by (auto simp: bounds numeral_eq_Suc)
next
  obtain e where e: "expression_ctor 2 1 1 1 2 [2] [f] s = Some (Inr e)"
    using expression_ctor_returns [of 2 1 1 1 2 "[2]" "[f]" s] by auto
  note fields = expression_ctor_fields [OF e]
  note bounds = scenario_bounds [OF e]
  define e1 where "e1 = e\<lparr>m_x := [0, 0, 1, 0]\<rparr>"
  define e' where "e' = e1\<lparr>m_active_nodes := [0], m_active_genes := [3]\<rparr>"
  have valid: "is_valid e [0, 0, 1, 0]"
    by (simp add: is_valid_def bounds upt_rec numeral_eq_Suc)
  have e1: "m_n e1 = 2" "m_m e1 = 1" "m_r e1 = 1" "m_c e1 = 1" "length (m_x e1) = 4" "m_x e1 ! 3 = 0"
    "m_x e1 = [0, 0, 1, 0]"
    by (simp_all add: e1_def fields)
  have outputs: "output_genes e1 = [3]"
    by (simp add: output_genes_def e1)
  have next_wave: "wave_next e1 [0] = []"
    by (simp add: wave_next_def e1)
  have "back_wave e1 [0] [] = Some [0, 0]"
    by (subst back_wave.simps) (simp add: next_wave wave_nodes_def e1)
  then have "update_data_structures e1 = Some e'"
    by (simp add: update_data_structures_def outputs active_genes_of_def e1 e'_def)
  then have set: "set_chromosome [0, 0, 1, 0] e = Returns e'"
    using valid by (simp add: set_chromosome_def refresh_def e1_def)
  have e'_fields: "m_n e' = 2" "m_m e' = 1" "m_r e' = 1" "m_c e' = 1" "length (m_x e') = 4"
    "m_x e' ! 3 = 0" "m_active_nodes e' = [0]" "m_active_genes e' = [3]" "m_x e' = [0, 0, 1, 0]"
    by (simp_all add: e'_def e1)
  have "foldl (eval_node e' [a, b]) (replicate (m_n e' + m_r e' * m_c e') 0) (m_active_nodes e')
      = [a, 0, 0]"
    by (simp add: e'_fields eval_node_def numeral_eq_Suc)
  then have "call e' [a, b] = Inr [a]"
    by (simp add: call_def e'_fields)
  with e valid set show "\<exists>e e'. expression_ctor 2 1 1 1 2 [2] [f] s = Some (Inr e) \<and>
              is_valid e [0, 0, 1, 0] \<and> set_chromosome [0, 0, 1, 0] e = Returns e' \<and>
              m_x e' = [0, 0, 1, 0] \<and> m_active_nodes e' = [0] \<and> m_active_genes e' = [3] \<and>
              call e' [a, b] = Inr [a]"
    using e'_fields by blast
qed

text \<open>
  C5. Claim: the evaluation is a function of the chromosome and the input point, and
  two chromosomes of the same shape that agree on every index of \<^verbatim>\<open>active_genes\<close>
  evaluate alike on every point.

  \<^verbatim>\<open>operator()\<close> walks the stored \<^verbatim>\<open>active_nodes\<close>, and those are stale after
  \<^verbatim>\<open>mutate(std::vector<unsigned>)\<close> has thrown. The state that call leaves and the
  state \<^verbatim>\<open>set(get())\<close> then returns have the same shape, the same chromosome
  \<open>[0, 1, 0, 2]\<close> and the same \<^verbatim>\<open>active_genes\<close> \<open>[0, 1, 2, 3]\<close>, and evaluate the
  point \<open>(5, 9)\<close> to 5 and to 14. (The claim holds for states whose derived data
  are up to date: \<open>reachable_by_returns_evaluation\<close>.)
\<close>

theorem evaluation_differs_for_one_chromosome:
  "\<exists>e1 e2 :: real expression.
          reachable e1 \<and> reachable e2 \<and> set_chromosome (get e1) e1 = Returns e2 \<and>
          m_n e2 = m_n e1 \<and> m_m e2 = m_m e1 \<and> m_r e2 = m_r e1 \<and> m_c e2 = m_c e1 \<and>
          m_l e2 = m_l e1 \<and> m_arity e2 = m_arity e1 \<and> m_f e2 = m_f e1 \<and>
          m_x e1 = [0, 1, 0, 2] \<and> m_x e2 = [0, 1, 0, 2] \<and>
          m_active_genes e1 = [0, 1, 2, 3] \<and> m_active_genes e2 = [0, 1, 2, 3] \<and>
          call e1 [5, 9] = Inr [5] \<and> call e2 [5, 9] = Inr [14]"
proof -
  let ?start = "set_chromosome [0, 0, 0, 2] small_expression"
  have trace:
    "(case ?start of
        Returns e \<Rightarrow>
          (case mutate_list [1, 4] e of
             Throws err e1 \<Rightarrow>
               (case set_chromosome (get e1) e1 of
                  Returns e2 \<Rightarrow> Some (observe e1, call e1 [5, 9], observe e2, call e2 [5, 9])
                | _ \<Rightarrow> None)
           | _ \<Rightarrow> None)
      | _ \<Rightarrow> None)
     = Some (([0, 1, 0, 2], [0, 2], [0, 1, 2, 3]), Inr [5],
             ([0, 1, 0, 2], [0, 1, 2], [0, 1, 2, 3]), Inr [14])"
    by code_simp
  obtain e where e: "?start = Returns e"
    using trace by (cases ?start) simp_all
  obtain err e1 where e1: "mutate_list [1, 4] e = Throws err e1"
    using trace e by (cases "mutate_list [1, 4] e") simp_all
  obtain e2 where e2: "set_chromosome (get e1) e1 = Returns e2"
    using trace e e1 by (cases "set_chromosome (get e1) e1") simp_all
  have r: "reachable e"
    using small_expression_reachable e reachable.returned [of small_expression "Set [0, 0, 0, 2]" e]
    by simp
  have r1: "reachable e1"
    using r e1 reachable.thrown [of e "Mutate_list [1, 4]" err e1] by simp
  have r2: "reachable e2"
    using r1 e2 reachable.returned [of e1 "Set (get e1)" e2] by simp
  have seen: "observe e1 = ([0, 1, 0, 2], [0, 2], [0, 1, 2, 3])" "call e1 [5, 9] = Inr [5]"
    "observe e2 = ([0, 1, 0, 2], [0, 1, 2], [0, 1, 2, 3])" "call e2 [5, 9] = Inr [14]"
    using trace e e1 e2 by simp_all
  have inv: "expression_inv e1" using r1 by (rule reachable_inv)
  then have valid: "is_valid e1 (get e1)" by (simp add: expression_inv_def get_def)
  obtain nodes where "set_chromosome (get e1) e1 =
       Returns (e1\<lparr>m_x := get e1, m_active_nodes := remdups_adj (sort nodes),
                  m_active_genes := active_genes_of (e1\<lparr>m_x := get e1\<rparr>) (remdups_adj (sort nodes))\<rparr>)"
    using set_chromosome_Returns [OF inv valid] by metis
  with e2 have shape: "m_n e2 = m_n e1" "m_m e2 = m_m e1" "m_r e2 = m_r e1" "m_c e2 = m_c e1"
    "m_l e2 = m_l e1" "m_arity e2 = m_arity e1" "m_f e2 = m_f e1"
    by auto
  have fields: "m_x e1 = [0, 1, 0, 2]" "m_x e2 = [0, 1, 0, 2]"
    "m_active_genes e1 = [0, 1, 2, 3]" "m_active_genes e2 = [0, 1, 2, 3]"
    using seen(1,3) by (simp_all add: observe_def)
  have "reachable e1 \<and> reachable e2 \<and> set_chromosome (get e1) e1 = Returns e2 \<and>
          m_n e2 = m_n e1 \<and> m_m e2 = m_m e1 \<and> m_r e2 = m_r e1 \<and> m_c e2 = m_c e1 \<and>
          m_l e2 = m_l e1 \<and> m_arity e2 = m_arity e1 \<and> m_f e2 = m_f e1 \<and>
          m_x e1 = [0, 1, 0, 2] \<and> m_x e2 = [0, 1, 0, 2] \<and>
          m_active_genes e1 = [0, 1, 2, 3] \<and> m_active_genes e2 = [0, 1, 2, 3] \<and>
          call e1 [5, 9] = Inr [5] \<and> call e2 [5, 9] = Inr [14]"
    by (intro conjI r1 r2 e2 shape fields seen(2) seen(4))
  then show ?thesis by (intro exI)
qed

text \<open>
  C4. Claim: after construction, after every mutator and after every successful
  \<^verbatim>\<open>set\<close>, every gene is within its bounds and \<^verbatim>\<open>active_nodes\<close> is sorted, free of
  duplicates and equal to the set of nodes that feed an output.

  The bounds, the order and the absence of duplicates hold in every reachable state
  (\<open>reachable_inv\<close>). The last part fails after the mutator
  \<^verbatim>\<open>mutate(std::vector<unsigned>)\<close> has thrown: in the state it leaves, node 1 feeds
  the output through the rewritten gene 1 and is missing from \<^verbatim>\<open>active_nodes\<close>.
\<close>

theorem active_nodes_stale_after_throwing_mutate:
  "\<exists>e e' :: real expression.
          reachable e \<and> exec (Mutate_list [1, 4]) e = Throws InvalidArgument e' \<and> reachable e' \<and>
          is_valid e' (m_x e') \<and> sorted (m_active_nodes e') \<and> distinct (m_active_nodes e') \<and>
          feeds_output e' 1 \<and> 1 \<notin> set (m_active_nodes e')"
proof -
  obtain e e' :: "real expression"
    where r: "reachable e" and throws: "mutate_list [1, 4] e = Throws InvalidArgument e'"
    and r': "reachable e'"
    and fields: "m_x e' = [0, 1, 0, 2]" "m_active_nodes e' = [0, 2]" "m_n e' = 2" "m_m e' = 1"
      "m_r e' = 1" "m_arity e' = [2]" "m_gene_idx e' = [0, 0, 0]"
    by (rule stale_state)
  have inv: "expression_inv e'" using r' by (rule reachable_inv)
  have "feeds_output e' (m_x e' ! (length (m_x e') - m_m e' + 0))"
    by (rule feeds_output.selected) (simp add: fields)
  then have two: "feeds_output e' 2" by (simp add: fields)
  have "feeds_output e' (m_x e' ! (m_gene_idx e' ! 2 + 1))"
    using two by (rule feeds_output.connected) (simp_all add: fields get_arity_unchecked_def)
  then have "feeds_output e' 1" by (simp add: fields)
  moreover have "1 \<notin> set (m_active_nodes e')" by (simp add: fields)
  ultimately show ?thesis
    using r throws r' expression_invD(2,4,5) [OF inv] by auto
qed

text \<open>
  C7. Claim: in every reachable state \<^verbatim>\<open>set(get())\<close> succeeds and leaves the chromosome,
  \<^verbatim>\<open>active_nodes\<close> and \<^verbatim>\<open>active_genes\<close> unchanged.

  It always succeeds and keeps the chromosome, but in the state that the throwing
  \<^verbatim>\<open>mutate(std::vector<unsigned>)\<close> leaves it replaces the stale \<^verbatim>\<open>active_nodes\<close>
  \<open>[0, 2]\<close> by \<open>[0, 1, 2]\<close>.
\<close>

theorem set_get_changes_stale_active_nodes:
  "\<exists>e e' :: real expression.
          reachable e \<and> set_chromosome (get e) e = Returns e' \<and> m_x e' = m_x e \<and>
          m_active_nodes e = [0, 2] \<and> m_active_nodes e' = [0, 1, 2]"
proof -
  obtain e' e'' :: "real expression"
    where "reachable e'" "set_chromosome (get e') e' = Returns e''"
    "m_x e' = [0, 1, 0, 2]" "m_active_nodes e' = [0, 2]" "m_x e'' = [0, 1, 0, 2]"
    "m_active_nodes e'' = [0, 1, 2]"
    by (rule stale_state)
  then show ?thesis by auto
qed

end
